theory Spec2Isabelle
  imports Complex_Main
begin

section \<open>Python strings\<close>

text \<open>
  A Python \<^verbatim>\<open>str\<close> is a sequence of Unicode code points, so it is modelled as a list
  of natural numbers. \<open>str\<close> turns an ASCII literal into such a list. An
  \<^verbatim>\<open>Optional[str]\<close> is a \<open>pystr option\<close>; \<open>truthy\<close> is Python's truth test
  on it (\<^verbatim>\<open>None\<close> and the empty string are false).
\<close>

type_synonym pystr = "nat list"

definition str :: "string \<Rightarrow> pystr" where
  "str s = map of_char s"

definition truthy :: "pystr option \<Rightarrow> bool" where
  "truthy v = (case v of None \<Rightarrow> False | Some s \<Rightarrow> s \<noteq> [])"

text \<open>
  \<^verbatim>\<open>str.isspace\<close>, \<^verbatim>\<open>str.strip()\<close> and the regular-expression class
  \<^verbatim>\<open>\s\<close> share one table of white space code points (CPython's
  \<^verbatim>\<open>Py_UNICODE_ISSPACE\<close>).
\<close>

definition py_isspace :: "nat \<Rightarrow> bool" where
  "py_isspace c = (c \<in> set [9, 10, 11, 12, 13, 28, 29, 30, 31, 32, 133, 160, 5760,
     8192, 8193, 8194, 8195, 8196, 8197, 8198, 8199, 8200, 8201, 8202,
     8232, 8233, 8239, 8287, 12288])"

definition py_lstrip :: "pystr \<Rightarrow> pystr" where
  "py_lstrip s = dropWhile py_isspace s"

definition py_rstrip :: "pystr \<Rightarrow> pystr" where
  "py_rstrip s = rev (dropWhile py_isspace (rev s))"

definition py_strip :: "pystr \<Rightarrow> pystr" where
  "py_strip s = py_rstrip (py_lstrip s)"

text \<open>\<^verbatim>\<open>s.rstrip(chars)\<close>: drop trailing code points that occur in \<open>chars\<close>.\<close>

definition py_rstrip_chars :: "pystr \<Rightarrow> pystr \<Rightarrow> pystr" where
  "py_rstrip_chars chars s = rev (dropWhile (\<lambda>c. c \<in> set chars) (rev s))"

text \<open>
  \<^verbatim>\<open>str.lower()\<close>. The letters A to Z are mapped to a to z; the case tables
  of the Unicode database for code points beyond ASCII are not part of the model, and
  these code points are left as they are.
\<close>

definition lower_cp :: "nat \<Rightarrow> nat" where
  "lower_cp c = (if 65 \<le> c \<and> c \<le> 90 then c + 32 else c)"

definition py_lower :: "pystr \<Rightarrow> pystr" where
  "py_lower s = map lower_cp s"

text \<open>\<^verbatim>\<open>a in b\<close> on strings: \<open>a\<close> occurs in \<open>b\<close> as a contiguous substring.\<close>

fun is_prefix :: "pystr \<Rightarrow> pystr \<Rightarrow> bool" where
  "is_prefix [] ys = True"
| "is_prefix (x # xs) [] = False"
| "is_prefix (x # xs) (y # ys) = (x = y \<and> is_prefix xs ys)"


section \<open>URL and DOI normalization\<close>

text \<open>
  \<^verbatim>\<open>normalize_url\<close> (document\_processor.py): strip, lowercase, drop trailing
  slashes, then cut at the first question mark (\<^verbatim>\<open>split('?')[0]\<close>).
  Code point 47 is the slash, 63 the question mark.
\<close>

definition normalize_url :: "pystr \<Rightarrow> pystr" where
  "normalize_url u =
     (if u = [] then []
      else let normalized = py_lower (py_strip u);
               normalized = py_rstrip_chars [47] normalized
           in if 63 \<in> set normalized then takeWhile (\<lambda>c. c \<noteq> 63) normalized
              else normalized)"

definition urls_match :: "pystr option \<Rightarrow> pystr option \<Rightarrow> bool" where
  "urls_match url1 url2 =
     (if \<not> truthy url1 \<or> \<not> truthy url2 then False
      else normalize_url (the url1) = normalize_url (the url2))"

text \<open>
  Modelled from the spec: \<^verbatim>\<open>normalize_doi\<close> is imported from the module
  \<^verbatim>\<open>models\<close>, which is not among the source files. The specification gives the
  normal form of a DOI as "lowercase, stripped of "doi:"/URL prefix, trimmed".
\<close>

definition doi_prefixes :: "pystr list" where
  "doi_prefixes = [str ''https://doi.org/'', str ''http://doi.org/'',
     str ''https://dx.doi.org/'', str ''http://dx.doi.org/'', str ''doi:'']"

fun strip_first_prefix :: "pystr list \<Rightarrow> pystr \<Rightarrow> pystr" where
  "strip_first_prefix [] s = s"
| "strip_first_prefix (p # ps) s =
     (if is_prefix p s then drop (length p) s else strip_first_prefix ps s)"

definition normalize_doi :: "pystr \<Rightarrow> pystr" where
  "normalize_doi d = py_strip (strip_first_prefix doi_prefixes (py_lower (py_strip d)))"

section \<open>Citation metadata and the source key\<close>

text \<open>
  The fields of \<^verbatim>\<open>CitationMetadata\<close> that the functions below read. Every string
  field may be \<^verbatim>\<open>None\<close> or empty; an absent author list is the empty list.
\<close>

record CitationMetadata =
  title :: "pystr option"
  authors :: "pystr list"
  year :: "pystr option"
  journal :: "pystr option"
  publisher :: "pystr option"
  volume :: "pystr option"
  pages :: "pystr option"
  doi :: "pystr option"
  url :: "pystr option"
  case_name :: "pystr option"
  citation :: "pystr option"
  raw_source :: "pystr option"

definition empty_metadata :: CitationMetadata where
  "empty_metadata = \<lparr>title = None, authors = [], year = None, journal = None,
     publisher = None, volume = None, pages = None, doi = None, url = None,
     case_name = None, citation = None, raw_source = None\<rparr>"

text \<open>
  \<^verbatim>\<open>generate_source_key\<close>. The argument is \<^verbatim>\<open>None\<close> or a metadata object; the
  branches are those of the source, in its order. 124 is the vertical bar.
\<close>

definition generate_source_key :: "CitationMetadata option \<Rightarrow> pystr option" where
  "generate_source_key metadata =
     (case metadata of
        None \<Rightarrow> None
      | Some m \<Rightarrow>
          if truthy (doi m) \<and> normalize_doi (the (doi m)) \<noteq> []
          then Some (str ''doi:'' @ normalize_doi (the (doi m)))
          else if truthy (url m)
          then Some (str ''url:'' @ normalize_url (the (url m)))
          else if truthy (case_name m) \<and> truthy (citation m)
          then Some (str ''legal:'' @ py_strip (py_lower (the (case_name m))) @ [124]
                     @ py_strip (py_lower (the (citation m))))
          else if truthy (title m)
          then Some (str ''title:'' @ py_strip (py_lower (the (title m)))
                     @ (if authors m \<noteq> [] \<and> length (authors m) > 0
                        then str ''|author:'' @ py_strip (py_lower (hd (authors m)))
                        else []))
          else if truthy (case_name m)
          then Some (str ''case:'' @ py_strip (py_lower (the (case_name m))))
          else None)"

definition sources_match :: "CitationMetadata option \<Rightarrow> CitationMetadata option \<Rightarrow> bool" where
  "sources_match metadata1 metadata2 =
     (let key1 = generate_source_key metadata1;
          key2 = generate_source_key metadata2
      in if key1 = None \<or> key2 = None then False else key1 = key2)"

section \<open>Citation history\<close>

record CitationHistoryEntry =
  metadata :: "CitationMetadata option"
  formatted :: pystr
  source_key :: "pystr option"
  note_number :: int

record CitationHistory =
  previous :: "CitationHistoryEntry option"
  all_sources :: "pystr \<rightharpoonup> CitationHistoryEntry"
  note_counter :: int

definition new_history :: CitationHistory where
  "new_history = \<lparr>previous = None, all_sources = Map.empty, note_counter = 0\<rparr>"

text \<open>
  \<^verbatim>\<open>CitationHistory.add\<close>: the counter is incremented first, the entry carries the
  new counter, \<^verbatim>\<open>previous\<close> is overwritten, and the entry goes into
  \<^verbatim>\<open>all_sources\<close> only under a truthy key that is not yet there.
\<close>

definition new_entry :: "CitationHistory \<Rightarrow> CitationMetadata option \<Rightarrow> pystr
    \<Rightarrow> CitationHistoryEntry" where
  "new_entry h md fm = \<lparr>metadata = md, formatted = fm,
     source_key = generate_source_key md, note_number = note_counter h + 1\<rparr>"

definition add :: "CitationHistory \<Rightarrow> CitationMetadata option \<Rightarrow> pystr \<Rightarrow> CitationHistory" where
  "add h md fm =
     (let entry = new_entry h md fm;
          h1 = h\<lparr>note_counter := note_counter h + 1, previous := Some entry\<rparr>
      in if truthy (source_key entry) \<and> the (source_key entry) \<notin> dom (all_sources h1)
         then h1\<lparr>all_sources := (all_sources h1)(the (source_key entry) \<mapsto> entry)\<rparr>
         else h1)"

definition is_same_as_previous :: "CitationHistory \<Rightarrow> CitationMetadata option \<Rightarrow> bool" where
  "is_same_as_previous h md =
     (case previous h of None \<Rightarrow> False
      | Some p \<Rightarrow> sources_match md (metadata p))"

definition has_been_cited_before :: "CitationHistory \<Rightarrow> CitationMetadata option \<Rightarrow> bool" where
  "has_been_cited_before h md =
     (case generate_source_key md of None \<Rightarrow> False
      | Some k \<Rightarrow> k \<in> dom (all_sources h))"

definition get_previous_metadata :: "CitationHistory \<Rightarrow> CitationMetadata option" where
  "get_previous_metadata h =
     (case previous h of None \<Rightarrow> None | Some p \<Rightarrow> metadata p)"

definition get_previous_url :: "CitationHistory \<Rightarrow> pystr option" where
  "get_previous_url h =
     (case previous h of None \<Rightarrow> None
      | Some p \<Rightarrow> (case metadata p of None \<Rightarrow> None | Some m \<Rightarrow> url m))"

text \<open>A run of \<^verbatim>\<open>add\<close> calls, and the entries these calls create, in call order.\<close>

fun add_all :: "CitationHistory \<Rightarrow> (CitationMetadata option \<times> pystr) list \<Rightarrow> CitationHistory" where
  "add_all h [] = h"
| "add_all h ((md, fm) # cs) = add_all (add h md fm) cs"

fun entries_from :: "int \<Rightarrow> (CitationMetadata option \<times> pystr) list \<Rightarrow> CitationHistoryEntry list" where
  "entries_from n [] = []"
| "entries_from n ((md, fm) # cs) =
     \<lparr>metadata = md, formatted = fm, source_key = generate_source_key md,
      note_number = n + 1\<rparr> # entries_from (n + 1) cs"

section \<open>Regular expressions\<close>

text \<open>
  The patterns of the source are kept as syntax trees and run by one matcher that follows
  Python's \<^verbatim>\<open>re\<close> module: alternatives are tried from left to right, the
  quantifiers \<^verbatim>\<open>?\<close>, \<^verbatim>\<open>*\<close> and \<^verbatim>\<open>+\<close> are greedy, and the first
  way through the pattern that succeeds is the match. The quantifiers \<^verbatim>\<open>*\<close> and
  \<^verbatim>\<open>+\<close> occur in the source on single-character classes only.

  A class item is a code point, \<^verbatim>\<open>\s\<close> or \<^verbatim>\<open>\d\<close>. The table of
  \<^verbatim>\<open>\d\<close> is the Unicode category Nd (Unicode 14), as inclusive ranges.
\<close>

datatype citem = CChr nat | CSpace | CDigit

datatype cset = In "citem list" | NotIn "citem list"

datatype rx =
    Chr nat
  | Cls cset
  | Eps
  | Bol
  | Eol
  | Seq rx rx
  | Alt rx rx
  | Opt rx
  | Star cset
  | Plus cset
  | Grp rx

definition nd_ranges :: "(nat \<times> nat) list" where
  "nd_ranges = [(48, 57), (1632, 1641), (1776, 1785), (1984, 1993), (2406, 2415),
     (2534, 2543), (2662, 2671), (2790, 2799), (2918, 2927), (3046, 3055), (3174, 3183),
     (3302, 3311), (3430, 3439), (3558, 3567), (3664, 3673), (3792, 3801), (3872, 3881),
     (4160, 4169), (4240, 4249), (6112, 6121), (6160, 6169), (6470, 6479), (6608, 6617),
     (6784, 6793), (6800, 6809), (6992, 7001), (7088, 7097), (7232, 7241), (7248, 7257),
     (42528, 42537), (43216, 43225), (43264, 43273), (43472, 43481), (43504, 43513),
     (43600, 43609), (44016, 44025), (65296, 65305), (66720, 66729), (68912, 68921),
     (69734, 69743), (69872, 69881), (69942, 69951), (70096, 70105), (70384, 70393),
     (70736, 70745), (70864, 70873), (71248, 71257), (71360, 71369), (71472, 71481),
     (71904, 71913), (72016, 72025), (72784, 72793), (73040, 73049), (73120, 73129),
     (92768, 92777), (92864, 92873), (93008, 93017), (120782, 120831), (123200, 123209),
     (123632, 123641), (125264, 125273), (130032, 130041)]"

definition py_isdigit :: "nat \<Rightarrow> bool" where
  "py_isdigit c = list_ex (\<lambda>(lo, hi). lo \<le> c \<and> c \<le> hi) nd_ranges"

text \<open>
  A literal code point under \<^verbatim>\<open>re.IGNORECASE\<close>: the subject character matches
  the pattern character \<open>p\<close> when their lowercase forms agree. For an ASCII letter these
  are the letter in both cases and, for i, k and s, the code points U+0130 and U+0131,
  U+212A, and U+017F. Without the flag the code points must be equal.
\<close>

definition chr_match :: "bool \<Rightarrow> nat \<Rightarrow> nat \<Rightarrow> bool" where
  "chr_match ic p c =
     (c = p \<or>
      (ic \<and> (let l = lower_cp p in
         97 \<le> l \<and> l \<le> 122 \<and>
         (c = l \<or> c + 32 = l
          \<or> (l = 105 \<and> (c = 304 \<or> c = 305))
          \<or> (l = 107 \<and> c = 8490)
          \<or> (l = 115 \<and> c = 383)))))"

fun item_match :: "bool \<Rightarrow> citem \<Rightarrow> nat \<Rightarrow> bool" where
  "item_match ic (CChr p) c = chr_match ic p c"
| "item_match ic CSpace c = py_isspace c"
| "item_match ic CDigit c = py_isdigit c"

fun cset_match :: "bool \<Rightarrow> cset \<Rightarrow> nat \<Rightarrow> bool" where
  "cset_match ic (In its) c = list_ex (\<lambda>i. item_match ic i c) its"
| "cset_match ic (NotIn its) c = (\<not> list_ex (\<lambda>i. item_match ic i c) its)"

text \<open>
  The state of a match: the number of code points consumed, the rest of the subject,
  and what group 1 captured so far.
\<close>

record mstate =
  pos :: nat
  rest :: pystr
  grp :: "pystr option"

definition advance :: "nat \<Rightarrow> mstate \<Rightarrow> mstate" where
  "advance k st = st\<lparr>pos := pos st + k, rest := drop k (rest st)\<rparr>"

text \<open>
  \<open>ms ic r st\<close> lists, in the order in which a backtracking matcher tries them, the
  states in which \<open>r\<close> can end when started in \<open>st\<close>. \<^verbatim>\<open>$\<close> holds at the end of
  the subject and before a line feed that ends it; \<^verbatim>\<open>^\<close> holds at position 0.
\<close>

primrec ms :: "bool \<Rightarrow> rx \<Rightarrow> mstate \<Rightarrow> mstate list" where
  "ms ic (Chr p) = (\<lambda>st. case rest st of [] \<Rightarrow> []
       | c # cs \<Rightarrow> if chr_match ic p c then [advance 1 st] else [])"
| "ms ic (Cls cs) = (\<lambda>st. case rest st of [] \<Rightarrow> []
       | c # cs' \<Rightarrow> if cset_match ic cs c then [advance 1 st] else [])"
| "ms ic Eps = (\<lambda>st. [st])"
| "ms ic Bol = (\<lambda>st. if pos st = 0 then [st] else [])"
| "ms ic Eol = (\<lambda>st. if rest st = [] \<or> rest st = [10] then [st] else [])"
| "ms ic (Seq a b) = (\<lambda>st. concat (map (ms ic b) (ms ic a st)))"
| "ms ic (Alt a b) = (\<lambda>st. ms ic a st @ ms ic b st)"
| "ms ic (Opt a) = (\<lambda>st. ms ic a st @ [st])"
| "ms ic (Star cs) = (\<lambda>st.
       map (\<lambda>k. advance k st) (rev [0..<Suc (length (takeWhile (cset_match ic cs) (rest st)))]))"
| "ms ic (Plus cs) = (\<lambda>st.
       map (\<lambda>k. advance k st) (rev [1..<Suc (length (takeWhile (cset_match ic cs) (rest st)))]))"
| "ms ic (Grp a) = (\<lambda>st.
       map (\<lambda>st'. st'\<lparr>grp := Some (take (pos st' - pos st) (rest st))\<rparr>) (ms ic a st))"

text \<open>\<^verbatim>\<open>pattern.match(s)\<close>: the first success from position 0, or \<^verbatim>\<open>None\<close>.\<close>

definition re_match :: "bool \<Rightarrow> rx \<Rightarrow> pystr \<Rightarrow> mstate option" where
  "re_match ic r s =
     (case ms ic r \<lparr>pos = 0, rest = s, grp = None\<rparr> of [] \<Rightarrow> None | st # _ \<Rightarrow> Some st)"

text \<open>A literal word, and a sequence of pattern parts.\<close>

fun lit :: "pystr \<Rightarrow> rx" where
  "lit [] = Eps"
| "lit [c] = Chr c"
| "lit (c # cs) = Seq (Chr c) (lit cs)"

fun seqs :: "rx list \<Rightarrow> rx" where
  "seqs [] = Eps"
| "seqs [r] = r"
| "seqs (r # rs) = Seq r (seqs rs)"

section \<open>Ibid detection\<close>

text \<open>
  \<^verbatim>\<open>IBID_PATTERN\<close>, compiled with \<^verbatim>\<open>re.IGNORECASE\<close>:
  \<^verbatim>\<open>^(?:ibid\.?|ibidem\.?|id\.?)(?:\s*(?:at\s+|[,.]?\s*)?(?:pp?\.?\s*)?(\d+[\-E]?\d*)?)?\.?$\<close>
  where E stands for the en dash U+2013 (8211), which the source writes literally. Code point 46 is the full stop, 44 the comma, 45 the hyphen, 112 the letter p.
\<close>

definition IBID_HEAD :: rx where
  "IBID_HEAD =
     Alt (Seq (lit (str ''ibid'')) (Opt (Chr 46)))
       (Alt (Seq (lit (str ''ibidem'')) (Opt (Chr 46)))
            (Seq (lit (str ''id'')) (Opt (Chr 46))))"

definition IBID_SEP :: rx where
  "IBID_SEP =
     Alt (Seq (lit (str ''at'')) (Plus (In [CSpace])))
         (Seq (Opt (Cls (In [CChr 44, CChr 46]))) (Star (In [CSpace])))"

definition IBID_PP :: rx where
  "IBID_PP = seqs [Chr 112, Opt (Chr 112), Opt (Chr 46), Star (In [CSpace])]"

definition IBID_PAGE :: rx where
  "IBID_PAGE = seqs [Plus (In [CDigit]), Opt (Cls (In [CChr 45, CChr 8211])),
                     Star (In [CDigit])]"

definition IBID_PATTERN :: rx where
  "IBID_PATTERN = seqs
     [Bol,
      IBID_HEAD,
      Opt (seqs [Star (In [CSpace]), Opt IBID_SEP, Opt IBID_PP, Opt (Grp IBID_PAGE)]),
      Opt (Chr 46),
      Eol]"

definition is_ibid :: "pystr \<Rightarrow> bool" where
  "is_ibid text =
     (if text = [] then False
      else let cleaned = py_strip text
           in re_match True IBID_PATTERN cleaned \<noteq> None)"

definition extract_ibid_page :: "pystr \<Rightarrow> pystr option" where
  "extract_ibid_page text =
     (if text = [] then None
      else let cleaned = py_strip text
           in case re_match True IBID_PATTERN cleaned of
                None \<Rightarrow> None
              | Some m \<Rightarrow> if truthy (grp m) then Some (py_strip (the (grp m))) else None)"

section \<open>The two phases of note processing\<close>

text \<open>
  A note read from the document (the dictionary with the keys \<^verbatim>\<open>id\<close> and
  \<^verbatim>\<open>text\<close>), its kind, and the dictionary that Phase 1 returns for it. The key
  \<^verbatim>\<open>current_url\<close> is absent from the dictionary of an explicit ibid;
  \<^verbatim>\<open>data.get('current_url')\<close> reads it as \<^verbatim>\<open>None\<close>.
\<close>

record raw_note =
  note_id :: pystr
  note_text :: pystr

datatype note_type = Endnote | Footnote

datatype exn = Exn pystr

record fetched =
  f_note_id :: pystr
  f_note_type :: note_type
  original_text :: pystr
  is_explicit_ibid :: bool
  ibid_page :: "pystr option"
  f_metadata :: "CitationMetadata option"
  f_formatted :: "pystr option"
  current_url :: "pystr option"
  f_error :: "pystr option"

text \<open>
  \<^verbatim>\<open>get_citation\<close> (module \<^verbatim>\<open>unified_router\<close>) is the resolver; it is a
  parameter here and either raises or returns the pair of metadata and full citation.
  \<^verbatim>\<open>get_citation_with_timeout\<close> turns an exception into the pair
  \<^verbatim>\<open>(None, None)\<close>.
\<close>

definition get_citation_with_timeout ::
    "(pystr \<Rightarrow> exn + CitationMetadata option \<times> pystr option) \<Rightarrow> pystr
     \<Rightarrow> CitationMetadata option \<times> pystr option" where
  "get_citation_with_timeout get_citation t =
     (case get_citation t of Inl e \<Rightarrow> (None, None) | Inr r \<Rightarrow> r)"

definition fetch_metadata_for_note ::
    "(pystr \<Rightarrow> exn + CitationMetadata option \<times> pystr option) \<Rightarrow> raw_note \<Rightarrow> note_type
     \<Rightarrow> fetched" where
  "fetch_metadata_for_note get_citation n nt =
     (if is_ibid (note_text n)
      then \<lparr>f_note_id = note_id n, f_note_type = nt, original_text = note_text n,
            is_explicit_ibid = True, ibid_page = extract_ibid_page (note_text n),
            f_metadata = None, f_formatted = None, current_url = None, f_error = None\<rparr>
      else
        (case get_citation_with_timeout get_citation (note_text n) of
           (md, full_formatted) \<Rightarrow>
             let url0 = (case md of None \<Rightarrow> None | Some m \<Rightarrow> url m);
                 url1 = (if \<not> truthy url0 \<and> is_prefix (str ''http'') (py_strip (note_text n))
                         then Some (py_strip (note_text n)) else url0)
             in \<lparr>f_note_id = note_id n, f_note_type = nt, original_text = note_text n,
                 is_explicit_ibid = False, ibid_page = None,
                 f_metadata = md, f_formatted = full_formatted, current_url = url1,
                 f_error = (if md \<noteq> None then None else Some (str ''No metadata found''))\<rparr>))"

text \<open>
  One entry of the results log (\<^verbatim>\<open>ProcessedCitation\<close>; the fields carry the prefix
  \<open>pc_\<close> because the history entry already has fields of these names).
\<close>

record ProcessedCitation =
  pc_original :: pystr
  pc_formatted :: pystr
  pc_metadata :: "CitationMetadata option"
  pc_url :: "pystr option"
  pc_success :: bool
  pc_error :: "pystr option"
  pc_citation_form :: pystr

text \<open>
  The collaborators of Phase 2: the formatter plug-in (\<^verbatim>\<open>BaseFormatter.format_ibid\<close>,
  \<^verbatim>\<open>formatter.format_short\<close>), which may raise, and the two writers of the
  document. \<^verbatim>\<open>write_endnote\<close> and \<^verbatim>\<open>write_footnote\<close> catch every exception
  themselves and return a flag that the caller drops, so they are functions on the
  document, whose type is left open.
\<close>

record 'doc env =
  format_ibid :: "pystr option \<Rightarrow> exn + pystr"
  format_short :: "CitationMetadata \<Rightarrow> exn + pystr"
  write_endnote :: "pystr \<Rightarrow> pystr \<Rightarrow> 'doc \<Rightarrow> 'doc"
  write_footnote :: "pystr \<Rightarrow> pystr \<Rightarrow> 'doc \<Rightarrow> 'doc"

record 'doc p2state =
  history :: CitationHistory
  doc :: 'doc
  results :: "ProcessedCitation list"

definition write_note :: "'doc env \<Rightarrow> fetched \<Rightarrow> pystr \<Rightarrow> 'doc \<Rightarrow> 'doc" where
  "write_note e d fm dc =
     (if f_note_type d = Endnote then write_endnote e (f_note_id d) fm dc
      else write_footnote e (f_note_id d) fm dc)"

definition failed_note :: "fetched \<Rightarrow> pystr option \<Rightarrow> pystr \<Rightarrow> ProcessedCitation" where
  "failed_note d err form =
     \<lparr>pc_original = original_text d, pc_formatted = original_text d, pc_metadata = None,
      pc_url = None, pc_success = False, pc_error = err, pc_citation_form = form\<rparr>"

definition done_note ::
    "fetched \<Rightarrow> pystr \<Rightarrow> CitationMetadata option \<Rightarrow> pystr option \<Rightarrow> pystr
     \<Rightarrow> ProcessedCitation" where
  "done_note d fm md u form =
     \<lparr>pc_original = original_text d, pc_formatted = fm, pc_metadata = md,
      pc_url = u, pc_success = True, pc_error = None, pc_citation_form = form\<rparr>"

text \<open>The handler of the loop body: the note is logged as failed, nothing else changes.\<close>

definition on_exception :: "'doc p2state \<Rightarrow> fetched \<Rightarrow> exn \<Rightarrow> 'doc p2state" where
  "on_exception s d e =
     (case e of Exn msg \<Rightarrow> s\<lparr>results := results s @ [failed_note d (Some msg) (str ''full'')]\<rparr>)"

text \<open>
  The body of the Phase 2 loop of \<^verbatim>\<open>process_document\<close> for one fetched note, with
  the cases in the order of the source. A formatter that raises is caught by the handler
  of the loop body; at each of these points nothing has been written yet.
\<close>

definition phase2_step :: "'doc env \<Rightarrow> 'doc p2state \<Rightarrow> fetched \<Rightarrow> 'doc p2state" where
  "phase2_step e s d =
     (if is_explicit_ibid d then
        (case get_previous_metadata (history s) of
           None \<Rightarrow>
             s\<lparr>results := results s @
                 [failed_note d (Some (str ''ibid reference but no previous citation found''))
                    (str ''ibid'')]\<rparr>
         | Some pm \<Rightarrow>
             (case format_ibid e (ibid_page d) of
                Inl ex \<Rightarrow> on_exception s d ex
              | Inr fm \<Rightarrow>
                  s\<lparr>doc := write_note e d fm (doc s),
                    results := results s @
                      [done_note d fm (Some pm) (get_previous_url (history s)) (str ''ibid'')]\<rparr>))
      else if f_metadata d = None \<or> \<not> truthy (f_formatted d) then
        s\<lparr>results := results s @ [failed_note d (f_error d) (str ''full'')]\<rparr>
      else
        (let md = f_metadata d;
             full_formatted = the (f_formatted d);
             previous_url = get_previous_url (history s)
         in if truthy (current_url d) \<and> truthy previous_url
               \<and> urls_match (current_url d) previous_url then
              (case format_ibid e None of
                 Inl ex \<Rightarrow> on_exception s d ex
               | Inr fm \<Rightarrow>
                   s\<lparr>doc := write_note e d fm (doc s),
                     results := results s @
                       [done_note d fm (get_previous_metadata (history s)) (current_url d)
                          (str ''ibid'')]\<rparr>)
            else if is_same_as_previous (history s) md then
              (case format_ibid e None of
                 Inl ex \<Rightarrow> on_exception s d ex
               | Inr fm \<Rightarrow>
                   s\<lparr>doc := write_note e d fm (doc s),
                     results := results s @ [done_note d fm md (current_url d) (str ''ibid'')],
                     history := add (history s) md fm\<rparr>)
            else if has_been_cited_before (history s) md then
              (case format_short e (the md) of
                 Inl ex \<Rightarrow> on_exception s d ex
               | Inr fm \<Rightarrow>
                   s\<lparr>doc := write_note e d fm (doc s),
                     history := add (history s) md fm,
                     results := results s @ [done_note d fm md (current_url d) (str ''short'')]\<rparr>)
            else
              s\<lparr>doc := write_note e d full_formatted (doc s),
                history := add (history s) md full_formatted,
                results := results s @
                  [done_note d full_formatted md (current_url d) (str ''full'')]\<rparr>))"

fun phase2 :: "'doc env \<Rightarrow> 'doc p2state \<Rightarrow> fetched list \<Rightarrow> 'doc p2state" where
  "phase2 e s [] = s"
| "phase2 e s (d # ds) = phase2 e (phase2_step e s d) ds"




section \<open>Relationships and the link activator\<close>

text \<open>
  \<^verbatim>\<open>str(n)\<close> for a natural number: its decimal digits. The counter
  \<^verbatim>\<open>next_id\<close> starts at 1 and only grows, so it is a natural number.
\<close>

fun digits_of :: "nat \<Rightarrow> nat \<Rightarrow> pystr" where
  "digits_of 0 n = []"
| "digits_of (Suc fuel) n =
     (if n < 10 then [48 + n] else digits_of fuel (n div 10) @ [48 + n mod 10])"

definition py_str_nat :: "nat \<Rightarrow> pystr" where
  "py_str_nat n = digits_of (Suc n) n"

record relationship =
  rel_type :: pystr
  rel_target :: pystr
  rel_mode :: pystr

record RelsManager =
  relationships :: "pystr \<rightharpoonup> relationship"
  next_id :: nat
  url_to_rid :: "pystr \<rightharpoonup> pystr"

definition HYPERLINK_TYPE :: pystr where
  "HYPERLINK_TYPE =
     str ''http://schemas.openxmlformats.org/officeDocument/2006/relationships/hyperlink''"

text \<open>The manager of a part that has no relationship file yet.\<close>

definition new_rels :: RelsManager where
  "new_rels = \<lparr>relationships = Map.empty, next_id = 1, url_to_rid = Map.empty\<rparr>"

text \<open>
  \<^verbatim>\<open>RelsManager.add_hyperlink\<close>: the dictionary \<^verbatim>\<open>url_to_rid\<close> is looked up
  with the URL string itself; the result is the ID and the manager after the call.
\<close>

definition add_hyperlink :: "RelsManager \<Rightarrow> pystr \<Rightarrow> pystr \<times> RelsManager" where
  "add_hyperlink m u =
     (case url_to_rid m u of
        Some r \<Rightarrow> (r, m)
      | None \<Rightarrow>
          let r_id = str ''rId'' @ py_str_nat (next_id m)
          in (r_id,
              m\<lparr>next_id := next_id m + 1,
                relationships := (relationships m)(r_id \<mapsto>
                  \<lparr>rel_type = HYPERLINK_TYPE, rel_target = u, rel_mode = str ''External''\<rparr>),
                url_to_rid := (url_to_rid m)(u \<mapsto> r_id)\<rparr>))"

text \<open>
  \<^verbatim>\<open>URL_PATTERN\<close> is \<^verbatim>\<open>https?://[^\s<>"\']+\<close>, compiled without flags.
  \<open>finditer\<close> gives the spans of its successive matches: after a match the scan
  goes on behind it, otherwise one code point further. (The pattern cannot match
  the empty string.)
\<close>

definition URL_PATTERN :: rx where
  "URL_PATTERN = seqs [lit (str ''http''), Opt (Chr 115), lit (str ''://''),
     Plus (NotIn [CSpace, CChr 60, CChr 62, CChr 34, CChr 39])]"

function finditer :: "rx \<Rightarrow> nat \<Rightarrow> pystr \<Rightarrow> (nat \<times> nat) list" where
  "finditer r i s =
     (if s = [] then []
      else case ms False r \<lparr>pos = i, rest = s, grp = None\<rparr> of
             [] \<Rightarrow> finditer r (i + 1) (tl s)
           | st # _ \<Rightarrow>
               if pos st \<le> i then finditer r (i + 1) (tl s)
               else (i, pos st) # finditer r (pos st) (drop (pos st - i) s))"
  by pat_completeness auto
termination
  by (relation "measure (\<lambda>(r, i, s). length s)") (auto simp: neq_Nil_conv)

text \<open>
  The children of a paragraph, as far as the activator looks at them: a run with its
  properties and the text of its first text element, a hyperlink element with its
  relationship ID, the properties of its run and its text, and anything else.
\<close>

datatype elem =
    Run "pystr option" "pystr option"
  | Hyperlink pystr "pystr option" pystr
  | Other

text \<open>
  The loop over the matches of one run in \<^verbatim>\<open>_process_paragraph\<close>. The state is the
  manager, the cache \<^verbatim>\<open>processed_urls\<close>, the elements built so far and
  \<^verbatim>\<open>last_end\<close>.
\<close>

definition slice :: "pystr \<Rightarrow> nat \<Rightarrow> nat \<Rightarrow> pystr" where
  "slice s a b = take (b - a) (drop a s)"

definition get_rid :: "RelsManager \<times> (pystr \<rightharpoonup> pystr) \<Rightarrow> pystr
    \<Rightarrow> pystr \<times> RelsManager \<times> (pystr \<rightharpoonup> pystr)" where
  "get_rid mc clean_url =
     (case snd mc clean_url of
        Some r \<Rightarrow> (r, fst mc, snd mc)
      | None \<Rightarrow>
          (case add_hyperlink (fst mc) clean_url of
             (r, m') \<Rightarrow> (r, m', (snd mc)(clean_url \<mapsto> r))))"

fun link_matches :: "pystr \<Rightarrow> pystr option \<Rightarrow> (nat \<times> nat) list
    \<Rightarrow> RelsManager \<times> (pystr \<rightharpoonup> pystr) \<Rightarrow> elem list \<Rightarrow> nat
    \<Rightarrow> (RelsManager \<times> (pystr \<rightharpoonup> pystr)) \<times> elem list \<times> nat" where
  "link_matches t rPr [] mc new_elements last_end = (mc, new_elements, last_end)"
| "link_matches t rPr ((start, end') # matches) mc new_elements last_end =
     (let u = slice t start end';
          clean_url = py_rstrip_chars (str ''.,;:)]'' @ [39, 34]) u;
          trailing_punct = drop (length clean_url) u;
          new_elements = (if start > last_end
                          then new_elements @ [Run rPr (Some (slice t last_end start))]
                          else new_elements)
      in case get_rid mc clean_url of
           (r_id, m', cache') \<Rightarrow>
             link_matches t rPr matches (m', cache')
               (new_elements @ [Hyperlink r_id rPr clean_url])
               (end' - length trailing_punct))"

definition process_run :: "RelsManager \<times> (pystr \<rightharpoonup> pystr) \<Rightarrow> elem
    \<Rightarrow> (RelsManager \<times> (pystr \<rightharpoonup> pystr)) \<times> elem list" where
  "process_run mc child =
     (case child of
        Run rPr (Some t) \<Rightarrow>
          if t = [] then (mc, [child])
          else
            (case finditer URL_PATTERN 0 t of
               [] \<Rightarrow> (mc, [child])
             | matches \<Rightarrow>
                 (case link_matches t rPr matches mc [] 0 of
                    (mc', new_elements, last_end) \<Rightarrow>
                      (mc', if last_end < length t
                            then new_elements @ [Run rPr (Some (drop last_end t))]
                            else new_elements)))
      | _ \<Rightarrow> (mc, [child]))"

fun process_paragraph :: "RelsManager \<times> (pystr \<rightharpoonup> pystr) \<Rightarrow> elem list
    \<Rightarrow> (RelsManager \<times> (pystr \<rightharpoonup> pystr)) \<times> elem list" where
  "process_paragraph mc [] = (mc, [])"
| "process_paragraph mc (child # children) =
     (case process_run mc child of
        (mc', els) \<Rightarrow>
          (case process_paragraph mc' children of
             (mc'', els') \<Rightarrow> (mc'', els @ els')))"

section \<open>The reference-list splice\<close>

text \<open>
  The heading test of \<^verbatim>\<open>_update_document_references\<close> is
  \<^verbatim>\<open>re.match(r'^References?\s*$|^Bibliography\s*$|^References Cited\s*$', para_text.strip(), re.IGNORECASE)\<close>.
\<close>

definition REFERENCES_HEADING :: rx where
  "REFERENCES_HEADING =
     Alt (seqs [Bol, lit (str ''Reference''), Opt (Chr 115), Star (In [CSpace]), Eol])
       (Alt (seqs [Bol, lit (str ''Bibliography''), Star (In [CSpace]), Eol])
            (seqs [Bol, lit (str ''References Cited''), Star (In [CSpace]), Eol]))"

definition is_references_heading :: "pystr \<Rightarrow> bool" where
  "is_references_heading t = (re_match True REFERENCES_HEADING (py_strip t) \<noteq> None)"

text \<open>
  The children of the body: a paragraph with the texts of its text elements
  (\<^verbatim>\<open>t.text or ''\<close>), the section properties, and any other element.
\<close>

datatype body_elem = Para "pystr option list" | SectPr | OtherElem

definition para_text :: "pystr option list \<Rightarrow> pystr" where
  "para_text ts = concat (map (\<lambda>t. case t of None \<Rightarrow> [] | Some x \<Rightarrow> x) ts)"

fun paragraphs_of :: "body_elem list \<Rightarrow> pystr option list list" where
  "paragraphs_of [] = []"
| "paragraphs_of (Para ts # b) = ts # paragraphs_of b"
| "paragraphs_of (x # b) = paragraphs_of b"

text \<open>The loop over \<^verbatim>\<open>enumerate(paragraphs)\<close>, which stops at the first heading.\<close>

fun find_references_start :: "nat \<Rightarrow> pystr option list list \<Rightarrow> nat option" where
  "find_references_start i [] = None"
| "find_references_start i (p # ps) =
     (if is_references_heading (para_text p) then Some i
      else find_references_start (i + 1) ps)"

text \<open>
  \<^verbatim>\<open>for para in paragraphs[references_start_idx:]: body.remove(para)\<close>: the
  paragraphs from the given paragraph index on leave the body, other elements stay.
\<close>

fun remove_paragraphs_from :: "nat \<Rightarrow> body_elem list \<Rightarrow> body_elem list" where
  "remove_paragraphs_from k [] = []"
| "remove_paragraphs_from k (Para ts # b) =
     (if k = 0 then remove_paragraphs_from 0 b
      else Para ts # remove_paragraphs_from (k - 1) b)"
| "remove_paragraphs_from k (x # b) = x # remove_paragraphs_from k b"

definition update_body :: "body_elem list \<Rightarrow> body_elem list \<Rightarrow> body_elem list" where
  "update_body new_paragraphs body =
     (let paragraphs = paragraphs_of body;
          references_start_idx = find_references_start 0 paragraphs;
          body1 = (case references_start_idx of
                     None \<Rightarrow> body
                   | Some i \<Rightarrow> remove_paragraphs_from i body);
          insert_idx = (if SectPr \<in> set body1 then length body1 - 1 else length body1)
      in take insert_idx body1 @ new_paragraphs @ drop insert_idx body1)"

section \<open>The author-date engine\<close>
















section \<open>LinkActivator.process\<close>


record 'fs zip_ops =
  extractall :: "nat list \<Rightarrow> exn + 'fs"
  path_exists :: "'fs \<Rightarrow> pystr \<Rightarrow> bool"
  process_xml_file :: "pystr \<Rightarrow> pystr \<Rightarrow> 'fs \<Rightarrow> exn + 'fs"
  repackage :: "'fs \<Rightarrow> exn + nat list"


fun process_targets :: "'fs zip_ops \<Rightarrow> (pystr \<times> pystr) list \<Rightarrow> 'fs \<Rightarrow> exn + 'fs" where
  "process_targets z [] fs = Inr fs"
| "process_targets z ((xml_file, rels_file) # ts) fs =
     (if path_exists z fs xml_file
      then (case process_xml_file z xml_file rels_file fs of
              Inl ex \<Rightarrow> Inl ex
            | Inr fs' \<Rightarrow> process_targets z ts fs')
      else process_targets z ts fs)"



section \<open>What a pattern matches\<close>

text \<open>
  \<open>den ic r b u q g g'\<close>: the pattern \<open>r\<close> matches exactly the code points \<open>u\<close>, where
  \<open>b\<close> tells whether \<open>u\<close> starts at position 0, \<open>q\<close> is the rest of the subject behind
  \<open>u\<close>, and group 1 holds \<open>g\<close> before and \<open>g'\<close> after the match. This is the reading of
  a pattern as a set of strings; \<open>ms\<close> is shown below to find exactly these matches.
\<close>

primrec den :: "bool \<Rightarrow> rx \<Rightarrow> bool \<Rightarrow> pystr \<Rightarrow> pystr \<Rightarrow> pystr option \<Rightarrow> pystr option \<Rightarrow> bool" where
  "den ic (Chr p) = (\<lambda>b u q g g'. (\<exists>c. u = [c] \<and> chr_match ic p c) \<and> g' = g)"
| "den ic (Cls cs) = (\<lambda>b u q g g'. (\<exists>c. u = [c] \<and> cset_match ic cs c) \<and> g' = g)"
| "den ic Eps = (\<lambda>b u q g g'. u = [] \<and> g' = g)"
| "den ic Bol = (\<lambda>b u q g g'. u = [] \<and> b \<and> g' = g)"
| "den ic Eol = (\<lambda>b u q g g'. u = [] \<and> (q = [] \<or> q = [10]) \<and> g' = g)"
| "den ic (Seq r1 r2) = (\<lambda>b u q g g'.
     \<exists>u1 u2 gm. u = u1 @ u2 \<and> den ic r1 b u1 (u2 @ q) g gm
        \<and> den ic r2 (b \<and> u1 = []) u2 q gm g')"
| "den ic (Alt r1 r2) = (\<lambda>b u q g g'. den ic r1 b u q g g' \<or> den ic r2 b u q g g')"
| "den ic (Opt r) = (\<lambda>b u q g g'. den ic r b u q g g' \<or> (u = [] \<and> g' = g))"
| "den ic (Star cs) = (\<lambda>b u q g g'. list_all (cset_match ic cs) u \<and> g' = g)"
| "den ic (Plus cs) = (\<lambda>b u q g g'. u \<noteq> [] \<and> list_all (cset_match ic cs) u \<and> g' = g)"
| "den ic (Grp r) = (\<lambda>b u q g g'. (\<exists>gm. den ic r b u q g gm) \<and> g' = Some u)"

text \<open>Equality of a word and a string up to case, as \<^verbatim>\<open>re.IGNORECASE\<close> has it.\<close>

definition ci_equal :: "pystr \<Rightarrow> pystr \<Rightarrow> bool" where
  "ci_equal w s = list_all2 (chr_match True) w s"

section \<open>Notions of the statements, and sample data\<close>

text \<open>
  Putting the new paragraphs in front of the section properties, which the source takes
  to be the last child of the body when they exist.
\<close>

definition insert_before_sectpr :: "body_elem list \<Rightarrow> body_elem list \<Rightarrow> body_elem list" where
  "insert_before_sectpr new_paragraphs b =
     (let k = (if SectPr \<in> set b then length b - 1 else length b)
      in take k b @ new_paragraphs @ drop k b)"

fun is_para :: "body_elem \<Rightarrow> bool" where
  "is_para (Para ts) = True"
| "is_para x = False"

definition sample_body :: "body_elem list" where
  "sample_body = [Para [Some (str ''Intro'')], Para [Some (str ''Reference'')],
                  Para [Some (str ''Old entry'')], SectPr]"

definition new_section :: "body_elem list" where
  "new_section = [Para [Some (str ''References'')], Para [Some (str ''New entry'')]]"

text \<open>
  The forms that \<open>IBID_PATTERN\<close> accepts, part by part: the head word with an optional
  full stop; a separator, which is \<^verbatim>\<open>at\<close> followed by white space, or an optional
  comma or full stop followed by optional white space; the page marker \<^verbatim>\<open>p\<close> or
  \<^verbatim>\<open>pp\<close> with an optional full stop and optional white space; and the page range:
  digits, an optional hyphen or en dash, and optional further digits. \<open>cat P Q\<close> holds of
  a string that is a \<open>P\<close> followed by a \<open>Q\<close>.
\<close>

definition cat :: "(pystr \<Rightarrow> bool) \<Rightarrow> (pystr \<Rightarrow> bool) \<Rightarrow> pystr \<Rightarrow> bool" where
  "cat P Q u = (\<exists>u1 u2. u = u1 @ u2 \<and> P u1 \<and> Q u2)"

definition spaces :: "pystr \<Rightarrow> bool" where
  "spaces w = list_all py_isspace w"

definition digits :: "pystr \<Rightarrow> bool" where
  "digits w = list_all py_isdigit w"

definition opt_dot :: "pystr \<Rightarrow> bool" where
  "opt_dot d = (d = [] \<or> d = [46])"

definition ibid_head :: "pystr \<Rightarrow> bool" where
  "ibid_head =
     cat (\<lambda>w. ci_equal (str ''ibid'') w \<or> ci_equal (str ''ibidem'') w \<or> ci_equal (str ''id'') w)
         opt_dot"

definition ibid_sep :: "pystr \<Rightarrow> bool" where
  "ibid_sep x =
     (cat (ci_equal (str ''at'')) (\<lambda>w. w \<noteq> [] \<and> spaces w) x
      \<or> cat (\<lambda>p. p = [] \<or> p = [44] \<or> p = [46]) spaces x)"

definition ibid_pp :: "pystr \<Rightarrow> bool" where
  "ibid_pp x =
     (x = [] \<or>
      cat (\<lambda>p. ci_equal (str ''p'') p \<or> ci_equal (str ''pp'') p) (cat opt_dot spaces) x)"

definition page_range :: "pystr \<Rightarrow> bool" where
  "page_range =
     cat (\<lambda>a. a \<noteq> [] \<and> digits a) (cat (\<lambda>d. d = [] \<or> d = [45] \<or> d = [8211]) digits)"

text \<open>
  \<open>ibid_form s pg\<close>: the string \<open>s\<close> is an ibid reference whose page range is \<open>pg\<close>
  (empty when it has none): head, white space, separator, page marker, page range, and
  an optional final full stop, one after the other.
\<close>

definition ibid_form :: "pystr \<Rightarrow> pystr \<Rightarrow> bool" where
  "ibid_form s pg =
     ((pg = [] \<or> page_range pg)
      \<and> cat ibid_head (cat spaces (cat ibid_sep (cat ibid_pp (cat (\<lambda>v. v = pg) opt_dot)))) s)"

text \<open>
  The forms of the claim, written as a pattern: one of \<^verbatim>\<open>ibid\<close>, \<^verbatim>\<open>ibid.\<close>,
  \<^verbatim>\<open>ibidem\<close>, \<^verbatim>\<open>id\<close>, \<^verbatim>\<open>id.\<close>; optionally a comma, a full stop or
  \<^verbatim>\<open>at\<close>; optionally \<^verbatim>\<open>p.\<close> or \<^verbatim>\<open>pp.\<close>; optionally a page or a range of
  two pages; optionally a final full stop; with white space allowed between the parts.
\<close>

definition CLAIMED_IBID_FORMS :: rx where
  "CLAIMED_IBID_FORMS = seqs
     [Bol,
      Alt (lit (str ''ibid.'')) (Alt (lit (str ''ibidem'')) (Alt (lit (str ''ibid''))
        (Alt (lit (str ''id.'')) (lit (str ''id''))))),
      Star (In [CSpace]),
      Opt (Alt (Chr 44) (Alt (Chr 46) (lit (str ''at'')))),
      Star (In [CSpace]),
      Opt (Alt (lit (str ''pp.'')) (lit (str ''p.''))),
      Star (In [CSpace]),
      Opt (seqs [Plus (In [CDigit]),
                 Opt (Seq (Cls (In [CChr 45, CChr 8211])) (Plus (In [CDigit])))]),
      Star (In [CSpace]),
      Opt (Chr 46),
      Eol]"

definition ibid_p_45 :: pystr where
  "ibid_p_45 = str ''ibid p 45''"



definition jones_foo :: CitationMetadata where
  "jones_foo = empty_metadata\<lparr>title := Some (str ''Foo''), authors := [str ''Jones'']\<rparr>"

definition smith_bar :: CitationMetadata where
  "smith_bar = empty_metadata\<lparr>title := Some (str ''Bar'')\<rparr>"

definition three_adds :: "(CitationMetadata option \<times> pystr) list" where
  "three_adds = [(Some jones_foo, str ''A''), (Some smith_bar, str ''B''),
                 (Some jones_foo, str ''C'')]"

definition plain_env :: "nat env" where
  "plain_env = \<lparr>format_ibid = (\<lambda>p. Inr (str ''Ibid.'')),
     format_short = (\<lambda>m. Inr (str ''short'')),
     write_endnote = (\<lambda>i t n. n + 1), write_footnote = (\<lambda>i t n. n + 1)\<rparr>"



definition unprecedented :: "raw_note \<Rightarrow> ProcessedCitation" where
  "unprecedented n =
     \<lparr>pc_original = note_text n, pc_formatted = note_text n, pc_metadata = None,
      pc_url = None, pc_success = False,
      pc_error = Some (str ''ibid reference but no previous citation found''),
      pc_citation_form = str ''ibid''\<rparr>"

definition lone_ibid :: raw_note where
  "lone_ibid = \<lparr>note_id = str ''1'', note_text = str ''ibid.''\<rparr>"

definition fresh_state :: "nat p2state" where
  "fresh_state = \<lparr>history = new_history, doc = 0, results = []\<rparr>"

definition nat_of_digits :: "pystr \<Rightarrow> nat" where
  "nat_of_digits ds = foldl (\<lambda>a c. 10 * a + (c - 48)) 0 ds"

text \<open>
  What holds of a manager and the cache of processed URLs while a part is rewritten:
  every URL that has an ID has an entry under this ID with the URL as its target, no
  entry has an ID \<open>rIdN\<close> with \<open>N\<close> at or above the counter, and the cache agrees with
  the manager.
\<close>

definition rels_ok :: "RelsManager \<times> (pystr \<rightharpoonup> pystr) \<Rightarrow> bool" where
  "rels_ok mc =
     ((\<forall>u r. url_to_rid (fst mc) u = Some r \<longrightarrow>
         (\<exists>rel. relationships (fst mc) r = Some rel \<and> rel_target rel = u))
      \<and> (\<forall>n. next_id (fst mc) \<le> n \<longrightarrow>
            relationships (fst mc) (str ''rId'' @ py_str_nat n) = None)
      \<and> (\<forall>u r. snd mc u = Some r \<longrightarrow> url_to_rid (fst mc) u = Some r))"

definition url_upper :: pystr where
  "url_upper = str ''https://Example.com/''"

definition url_lower :: pystr where
  "url_lower = str ''https://example.com''"

definition two_urls :: pystr where
  "two_urls = url_upper @ str '' '' @ url_lower"

definition reaches :: "mstate \<Rightarrow> pystr \<Rightarrow> mstate \<Rightarrow> bool" where
  "reaches st u st' = (rest st = u @ rest st' \<and> pos st' = pos st + length u)"
















definition pure :: "bool \<Rightarrow> rx \<Rightarrow> (pystr \<Rightarrow> bool) \<Rightarrow> bool" where
  "pure ic r P = (\<forall>b u q g g'. den ic r b u q g g' = (P u \<and> g' = g))"

text \<open>The part of the pattern between the head and the final full stop.\<close>

definition IBID_BODY :: rx where
  "IBID_BODY = Opt (seqs [Star (In [CSpace]), Opt IBID_SEP, Opt IBID_PP, Opt (Grp IBID_PAGE)])"

text \<open>
  The page range of an ibid reference, read off the string: what follows the first digit,
  without a final full stop.
\<close>

definition find_page :: "pystr \<Rightarrow> pystr" where
  "find_page s =
     (let d = dropWhile (\<lambda>c. \<not> py_isdigit c) s
      in if d \<noteq> [] \<and> last d = 46 then butlast d else d)"

definition no_digit :: "pystr \<Rightarrow> bool" where
  "no_digit u = list_all (\<lambda>c. \<not> py_isdigit c) u"

section \<open>Facts about strings and keys\<close>

lemma generate_source_key_nonempty:
  "generate_source_key md = Some k \<Longrightarrow> k \<noteq> []"
  by (auto simp: generate_source_key_def str_def split: option.splits if_splits)

lemmas string_eval = str_def truthy_def py_strip_def py_lstrip_def py_rstrip_def
  py_isspace_def py_lower_def lower_cp_def py_rstrip_chars_def

lemmas key_eval = generate_source_key_def empty_metadata_def normalize_doi_def
  normalize_url_def doi_prefixes_def

section \<open>The source key (claim C1)\<close>




section \<open>The history (claim C2)\<close>

lemma add_note_counter: "note_counter (add h md fm) = note_counter h + 1"
  by (simp add: add_def Let_def)

lemma add_previous: "previous (add h md fm) = Some (new_entry h md fm)"
  by (simp add: add_def Let_def)

lemma add_all_sources:
  "all_sources (add h md fm) =
     (case generate_source_key md of
        None \<Rightarrow> all_sources h
      | Some k \<Rightarrow> if k \<in> dom (all_sources h) then all_sources h
                  else (all_sources h)(k \<mapsto> new_entry h md fm))"
  by (cases "generate_source_key md")
     (auto simp: add_def Let_def new_entry_def truthy_def dest: generate_source_key_nonempty)

lemma add_all_note_counter:
  "note_counter (add_all h cs) = note_counter h + int (length cs)"
  by (induction h cs rule: add_all.induct) (simp_all add: add_note_counter)

lemma entries_from_numbers:
  "map note_number (entries_from n cs) = map (\<lambda>i. n + 1 + int i) [0..<length cs]"
proof (induction n cs rule: entries_from.induct)
  case (1 n)
  show ?case by simp
next
  case (2 n md fm cs)
  have "map (\<lambda>i. n + 1 + int i) [0..<Suc (length cs)]
        = (n + 1) # map (\<lambda>i. n + 1 + int (Suc i)) [0..<length cs]"
    by (simp add: upt_conv_Cons map_Suc_upt [symmetric] del: upt_Suc)
  with 2 show ?case by simp
qed

lemma add_all_previous:
  "previous (add_all h cs) =
     (if cs = [] then previous h else Some (last (entries_from (note_counter h) cs)))"
proof (induction h cs rule: add_all.induct)
  case (1 h)
  show ?case by simp
next
  case (2 h md fm cs)
  then show ?case
    by (cases cs) (auto simp: add_previous add_note_counter new_entry_def)
qed

lemma add_all_all_sources:
  "all_sources (add_all h cs) k =
     (case all_sources h k of
        Some e \<Rightarrow> Some e
      | None \<Rightarrow> find (\<lambda>e. source_key e = Some k) (entries_from (note_counter h) cs))"
proof (induction h cs rule: add_all.induct)
  case (1 h)
  show ?case by (simp split: option.splits)
next
  case (2 h md fm cs)
  show ?case
    by (simp add: "2.IH" add_note_counter add_all_sources new_entry_def
        split: option.splits) (auto simp: domIff)
qed

text \<open>
  C2. One call of \<open>add\<close> raises the counter by exactly one, makes the new entry (which
  carries the new counter) the previous one, and stores it under its key exactly when
  the key is not null and not yet in the map. After any run of calls on a fresh history
  the counter is the number of calls, the entries are numbered 1, 2, ... in call order,
  \<open>previous\<close> is the entry of the last call, and the entry stored under a key is the
  first entry of the run that has this key.
\<close>

theorem history_add_keeps_first_occurrence:
  "note_counter (add h md fm) = note_counter h + 1
   \<and> previous (add h md fm) = Some (new_entry h md fm)
   \<and> note_number (new_entry h md fm) = note_counter h + 1
   \<and> all_sources (add h md fm) =
       (case generate_source_key md of
          None \<Rightarrow> all_sources h
        | Some k \<Rightarrow> if k \<in> dom (all_sources h) then all_sources h
                    else (all_sources h)(k \<mapsto> new_entry h md fm))
   \<and> note_counter (add_all new_history cs) = int (length cs)
   \<and> map note_number (entries_from 0 cs) = map (\<lambda>i. 1 + int i) [0..<length cs]
   \<and> previous (add_all new_history cs) =
       (if cs = [] then None else Some (last (entries_from 0 cs)))
   \<and> all_sources (add_all new_history cs) k =
       find (\<lambda>e. source_key e = Some k) (entries_from 0 cs)"
  using add_all_note_counter [of new_history cs] entries_from_numbers [of 0 cs]
    add_all_previous [of new_history cs] add_all_all_sources [of new_history cs k]
  by (simp add: add_note_counter add_previous add_all_sources new_entry_def new_history_def)

lemma key_jones_foo: "generate_source_key (Some jones_foo) = Some (str ''title:foo|author:jones'')"
  by (simp add: jones_foo_def key_eval string_eval)

lemma key_smith_bar: "generate_source_key (Some smith_bar) = Some (str ''title:bar'')"
  by (simp add: smith_bar_def key_eval string_eval)

theorem history_add_keeps_first_occurrence_witness:
  "note_counter (add_all new_history three_adds) = 3
   \<and> all_sources (add_all new_history three_adds) (str ''title:foo|author:jones'')
       = Some \<lparr>metadata = Some jones_foo, formatted = str ''A'',
               source_key = Some (str ''title:foo|author:jones''), note_number = 1\<rparr>
   \<and> previous (add_all new_history three_adds)
       = Some \<lparr>metadata = Some jones_foo, formatted = str ''C'',
               source_key = Some (str ''title:foo|author:jones''), note_number = 3\<rparr>"
  using history_add_keeps_first_occurrence
    [of new_history None "[]" three_adds "str ''title:foo|author:jones''"]
  by (simp add: three_adds_def key_jones_foo key_smith_bar str_def)

section \<open>The citation-form engine (claims C3 and C4)\<close>










lemma phase2_step_results_length:
  "length (results (phase2_step e s d)) = Suc (length (results s))"
  by (simp add: phase2_step_def on_exception_def Let_def
      split: option.splits sum.splits exn.splits)

lemma phase2_results_length:
  "length (results (phase2 e s ds)) = length (results s) + length ds"
  by (induction ds arbitrary: s) (simp_all add: phase2_step_results_length)

text \<open>
  C4. For a note whose text \<open>is_ibid\<close> recognizes, processed on a history without a
  previous entry: the step appends one log entry to the results, with the raw text as
  emitted text, marked unsuccessful, with the error "ibid reference but no previous
  citation found"; the document and the history stay as they are; and the loop goes on
  with the notes that follow, each of which gets its log entry.
\<close>

theorem ibid_without_precedent:
  assumes "is_ibid (note_text n)" and "previous (history s) = None"
  shows "phase2_step e s (fetch_metadata_for_note gc n nt)
           = s\<lparr>results := results s @ [unprecedented n]\<rparr>
     \<and> doc (phase2_step e s (fetch_metadata_for_note gc n nt)) = doc s
     \<and> history (phase2_step e s (fetch_metadata_for_note gc n nt)) = history s
     \<and> phase2 e s (fetch_metadata_for_note gc n nt # ds)
           = phase2 e (s\<lparr>results := results s @ [unprecedented n]\<rparr>) ds
     \<and> length (results (phase2 e s (fetch_metadata_for_note gc n nt # ds)))
           = length (results s) + 1 + length ds"
proof -
  have step: "phase2_step e s (fetch_metadata_for_note gc n nt)
                = s\<lparr>results := results s @ [unprecedented n]\<rparr>"
    using assms
    by (simp add: fetch_metadata_for_note_def phase2_step_def unprecedented_def
        get_previous_metadata_def failed_note_def)
  then show ?thesis
    by (simp add: phase2_results_length)
qed

lemmas rx_eval = re_match_def str_def py_strip_def py_lstrip_def py_rstrip_def
  py_isspace_def py_isdigit_def nd_ranges_def chr_match_def lower_cp_def advance_def truthy_def
  Let_def

lemmas ibid_eval = is_ibid_def extract_ibid_page_def IBID_PATTERN_def IBID_HEAD_def
  IBID_SEP_def IBID_PP_def IBID_PAGE_def

lemma is_ibid_lone: "is_ibid (note_text lone_ibid)"
  by (simp add: lone_ibid_def ibid_eval rx_eval)

theorem ibid_without_precedent_witness:
  "is_ibid (note_text lone_ibid) \<and> previous (history fresh_state) = None
   \<and> phase2_step plain_env fresh_state
        (fetch_metadata_for_note (\<lambda>t. Inr (None, None)) lone_ibid Endnote)
       = \<lparr>history = new_history, doc = 0, results = [unprecedented lone_ibid]\<rparr>"
  using ibid_without_precedent [of lone_ibid fresh_state plain_env "\<lambda>t. Inr (None, None)"
      Endnote "[]"] is_ibid_lone
  by (simp add: fresh_state_def new_history_def)

section \<open>Relationship entries (claim C8)\<close>

lemma nat_of_digits_of:
  "n < fuel \<Longrightarrow> nat_of_digits (digits_of fuel n) = n"
proof (induction fuel arbitrary: n)
  case 0
  then show ?case by simp
next
  case (Suc fuel)
  show ?case
  proof (cases "n < 10")
    case True
    then show ?thesis by (simp add: nat_of_digits_def)
  next
    case False
    with Suc.prems have "n div 10 < fuel" by simp
    from Suc.IH [OF this] False show ?thesis
      by (simp add: nat_of_digits_def)
  qed
qed

lemma py_str_nat_inj: "py_str_nat a = py_str_nat b \<Longrightarrow> a = b"
proof -
  assume eq: "py_str_nat a = py_str_nat b"
  have "nat_of_digits (py_str_nat n) = n" for n
    unfolding py_str_nat_def by (rule nat_of_digits_of) (rule lessI)
  with eq show "a = b" by metis
qed

lemma rels_ok_new: "rels_ok (new_rels, Map.empty)"
  by (simp add: rels_ok_def new_rels_def)

lemma get_rid_known:
  "snd mc u = Some r \<Longrightarrow> get_rid mc u = (r, mc)"
  by (simp add: get_rid_def)

lemma get_rid_ok:
  assumes "rels_ok mc"
  shows "rels_ok (snd (get_rid mc u))
     \<and> snd (snd (get_rid mc u)) u = Some (fst (get_rid mc u))
     \<and> (\<forall>u' r'. url_to_rid (fst mc) u' = Some r'
           \<longrightarrow> url_to_rid (fst (snd (get_rid mc u))) u' = Some r')"
proof (cases "snd mc u")
  case (Some r)
  with assms show ?thesis by (simp add: get_rid_def)
next
  case None
  show ?thesis
  proof (cases "url_to_rid (fst mc) u")
    case (Some r)
    with None assms show ?thesis
      by (simp add: get_rid_def add_hyperlink_def rels_ok_def)
  next
    case unknown: None
    let ?rid = "str ''rId'' @ py_str_nat (next_id (fst mc))"
    have fresh: "relationships (fst mc) ?rid = None"
      using assms by (simp add: rels_ok_def)
    have other: "r' \<noteq> ?rid" if "url_to_rid (fst mc) u' = Some r'" for u' r'
    proof -
      from assms that obtain rel where "relationships (fst mc) r' = Some rel"
        unfolding rels_ok_def by blast
      with fresh show ?thesis by auto
    qed
    have later: "next_id (fst mc) + 1 \<le> n \<Longrightarrow> str ''rId'' @ py_str_nat n \<noteq> ?rid" for n
      by (auto dest: py_str_nat_inj)
    show ?thesis
      using None unknown assms other later
      by (auto simp: get_rid_def add_hyperlink_def rels_ok_def Let_def)
  qed
qed

text \<open>
  C8, as the code has it. The relationship ID of a URL is looked up with the trimmed URL
  string itself, without normalization. When two URLs are given their IDs one after the
  other, the IDs are equal exactly when the two strings are equal; each ID then names an
  entry whose target is its URL; and a second occurrence of the same string changes
  nothing in the manager. So \<^verbatim>\<open>https://Example.com/\<close> and
  \<^verbatim>\<open>https://example.com\<close> get two IDs and two entries.
\<close>

theorem relationship_per_url_string:
  assumes "rels_ok mc"
  shows "(fst (get_rid mc u1) = fst (get_rid (snd (get_rid mc u1)) u2) \<longleftrightarrow> u1 = u2)
     \<and> (\<exists>rel. relationships (fst (snd (get_rid (snd (get_rid mc u1)) u2)))
                 (fst (get_rid mc u1)) = Some rel \<and> rel_target rel = u1)
     \<and> (\<exists>rel. relationships (fst (snd (get_rid (snd (get_rid mc u1)) u2)))
                 (fst (get_rid (snd (get_rid mc u1)) u2)) = Some rel \<and> rel_target rel = u2)
     \<and> (u1 = u2 \<longrightarrow> snd (get_rid (snd (get_rid mc u1)) u2) = snd (get_rid mc u1))
     \<and> rels_ok (snd (get_rid (snd (get_rid mc u1)) u2))"
proof -
  let ?g1 = "get_rid mc u1"
  let ?g2 = "get_rid (snd ?g1) u2"
  have ok1: "rels_ok (snd ?g1)" and c1: "snd (snd ?g1) u1 = Some (fst ?g1)"
    using get_rid_ok [OF assms, of u1] by simp_all
  have ok2: "rels_ok (snd ?g2)" and c2: "snd (snd ?g2) u2 = Some (fst ?g2)"
    and mono: "\<And>u' r'. url_to_rid (fst (snd ?g1)) u' = Some r'
                 \<Longrightarrow> url_to_rid (fst (snd ?g2)) u' = Some r'"
    using get_rid_ok [OF ok1, of u2] by simp_all
  have m1: "url_to_rid (fst (snd ?g2)) u1 = Some (fst ?g1)"
    using ok1 c1 mono by (simp add: rels_ok_def)
  have m2: "url_to_rid (fst (snd ?g2)) u2 = Some (fst ?g2)"
    using ok2 c2 by (simp add: rels_ok_def)
  obtain rel1 where t1: "relationships (fst (snd ?g2)) (fst ?g1) = Some rel1"
      "rel_target rel1 = u1"
    using ok2 m1 unfolding rels_ok_def by blast
  obtain rel2 where t2: "relationships (fst (snd ?g2)) (fst ?g2) = Some rel2"
      "rel_target rel2 = u2"
    using ok2 m2 unfolding rels_ok_def by blast
  have same: "u1 = u2 \<Longrightarrow> ?g2 = (fst ?g1, snd ?g1)"
    using c1 by (simp add: get_rid_known)
  have "fst ?g1 = fst ?g2 \<longleftrightarrow> u1 = u2"
  proof
    assume "fst ?g1 = fst ?g2"
    with t1 t2 show "u1 = u2" by simp
  next
    assume "u1 = u2"
    from same [OF this] show "fst ?g1 = fst ?g2" by simp
  qed
  moreover have "u1 = u2 \<longrightarrow> snd ?g2 = snd ?g1"
    using same by simp
  ultimately show ?thesis
    using t1 t2 ok2 by blast
qed

lemmas url_eval = two_urls_def url_upper_def url_lower_def URL_PATTERN_def str_def
  py_isspace_def chr_match_def lower_cp_def
  advance_def Let_def slice_def py_rstrip_chars_def get_rid_def add_hyperlink_def new_rels_def
  process_run_def py_str_nat_def HYPERLINK_TYPE_def

lemma finditer_two_urls: "finditer URL_PATTERN 0 two_urls = [(0, 20), (21, 40)]"
  by (simp add: url_eval)

theorem relationship_per_url_string_witness:
  "rels_ok (new_rels, Map.empty)
   \<and> fst (get_rid (new_rels, Map.empty) url_upper) = str ''rId1''
   \<and> fst (get_rid (snd (get_rid (new_rels, Map.empty) url_upper)) url_lower) = str ''rId2''
   \<and> fst (get_rid (snd (get_rid (new_rels, Map.empty) url_upper)) url_upper) = str ''rId1''
   \<and> fst (get_rid (new_rels, Map.empty) url_upper)
        \<noteq> fst (get_rid (snd (get_rid (new_rels, Map.empty) url_upper)) url_lower)"
proof -
  have differ: "url_upper \<noteq> url_lower"
    by (simp add: url_upper_def url_lower_def str_def)
  have a: "fst (get_rid (new_rels, Map.empty) url_upper) = str ''rId1''"
    by (simp add: url_eval)
  have b: "fst (get_rid (snd (get_rid (new_rels, Map.empty) url_upper)) url_lower) = str ''rId2''"
    by (simp add: url_eval)
  have c: "fst (get_rid (snd (get_rid (new_rels, Map.empty) url_upper)) url_upper) = str ''rId1''"
    by (simp add: url_eval)
  from relationship_per_url_string [OF rels_ok_new, of url_upper url_lower] differ
  have "fst (get_rid (new_rels, Map.empty) url_upper)
          \<noteq> fst (get_rid (snd (get_rid (new_rels, Map.empty) url_upper)) url_lower)"
    by blast
  with a b c rels_ok_new show ?thesis by simp
qed

text \<open>
  The claim as stated fails on a paragraph whose text holds both URLs: the activator
  builds two hyperlinks with the IDs rId1 and rId2, and the manager, which had no
  entries, ends with two.
\<close>

theorem two_urls_counterexample:
  "snd (process_paragraph (new_rels, Map.empty) [Run None (Some two_urls)])
     = [Hyperlink (str ''rId1'') None url_upper, Run None (Some (str '' '')),
        Hyperlink (str ''rId2'') None url_lower]
   \<and> dom (relationships (fst (fst (process_paragraph (new_rels, Map.empty)
            [Run None (Some two_urls)])))) = {str ''rId1'', str ''rId2''}
   \<and> str ''rId1'' \<noteq> str ''rId2''"
  by (auto simp: finditer_two_urls url_eval)

section \<open>The matcher finds exactly the matches of a pattern\<close>

lemma mstate_eqI:
  "pos a = pos b \<Longrightarrow> rest a = rest b \<Longrightarrow> grp a = grp b \<Longrightarrow> a = (b::mstate)"
  by simp

lemma advance_iff:
  "st' = advance k st \<longleftrightarrow>
     pos st' = pos st + k \<and> rest st' = drop k (rest st) \<and> grp st' = grp st"
  by (auto simp: advance_def intro: mstate_eqI)

lemma take_takeWhile_all:
  "k \<le> length (takeWhile P xs) \<Longrightarrow> list_all P (take k xs)"
proof (induction xs arbitrary: k)
  case Nil
  then show ?case by simp
next
  case (Cons x xs)
  then show ?case by (cases k) (auto split: if_splits)
qed

lemma all_prefix_takeWhile:
  "list_all P u \<Longrightarrow> length u \<le> length (takeWhile P (u @ r))"
  by (induction u) auto

lemma star_states:
  "st' \<in> (\<lambda>k. advance k st) ` {lo..<Suc (length (takeWhile P (rest st)))} \<longleftrightarrow>
     (\<exists>u. reaches st u st' \<and> lo \<le> length u \<and> list_all P u \<and> grp st' = grp st)"
proof
  assume "st' \<in> (\<lambda>k. advance k st) ` {lo..<Suc (length (takeWhile P (rest st)))}"
  then obtain k where k: "lo \<le> k" "k \<le> length (takeWhile P (rest st))"
    and st': "st' = advance k st" by auto
  have kl: "k \<le> length (rest st)"
    using k(2) length_takeWhile_le [of P "rest st"] by linarith
  have "reaches st (take k (rest st)) st'"
    using st' kl by (simp add: reaches_def advance_def)
  moreover have "lo \<le> length (take k (rest st))" using k(1) kl by simp
  moreover have "list_all P (take k (rest st))" using k(2) by (rule take_takeWhile_all)
  moreover have "grp st' = grp st" using st' by (simp add: advance_def)
  ultimately show "\<exists>u. reaches st u st' \<and> lo \<le> length u \<and> list_all P u \<and> grp st' = grp st"
    by blast
next
  assume "\<exists>u. reaches st u st' \<and> lo \<le> length u \<and> list_all P u \<and> grp st' = grp st"
  then obtain u where u: "rest st = u @ rest st'" "pos st' = pos st + length u"
      "lo \<le> length u" "list_all P u" "grp st' = grp st"
    by (auto simp: reaches_def)
  have "length u \<le> length (takeWhile P (rest st))"
    using all_prefix_takeWhile [OF u(4), of "rest st'"] u(1) by simp
  moreover have "st' = advance (length u) st"
    using u by (simp add: advance_iff)
  ultimately show "st' \<in> (\<lambda>k. advance k st) ` {lo..<Suc (length (takeWhile P (rest st)))}"
    using u(3) by auto
qed

lemma ms_iff_den:
  "st' \<in> set (ms ic r st) \<longleftrightarrow>
     (\<exists>u. reaches st u st' \<and> den ic r (pos st = 0) u (rest st') (grp st) (grp st'))"
proof (induction r arbitrary: st st')
  case (Chr p)
  show ?case
    by (cases "rest st") (auto simp: reaches_def advance_iff)
next
  case (Cls cs)
  show ?case
    by (cases "rest st") (auto simp: reaches_def advance_iff)
next
  case Eps
  show ?case by (auto simp: reaches_def intro: mstate_eqI)
next
  case Bol
  show ?case by (auto simp: reaches_def intro: mstate_eqI)
next
  case Eol
  show ?case by (auto simp: reaches_def intro: mstate_eqI)
next
  case (Seq r1 r2)
  show ?case
  proof
    assume "st' \<in> set (ms ic (Seq r1 r2) st)"
    then obtain sm where sm: "sm \<in> set (ms ic r1 st)" and st': "st' \<in> set (ms ic r2 sm)"
      by auto
    from sm obtain u1 where u1: "reaches st u1 sm"
        "den ic r1 (pos st = 0) u1 (rest sm) (grp st) (grp sm)"
      using Seq.IH(1) by blast
    from st' obtain u2 where u2: "reaches sm u2 st'"
        "den ic r2 (pos sm = 0) u2 (rest st') (grp sm) (grp st')"
      using Seq.IH(2) by blast
    have "reaches st (u1 @ u2) st'"
      using u1(1) u2(1) by (simp add: reaches_def)
    moreover have "(pos sm = 0) = (pos st = 0 \<and> u1 = [])"
      using u1(1) by (auto simp: reaches_def)
    moreover have "rest sm = u2 @ rest st'" using u2(1) by (simp add: reaches_def)
    ultimately show "\<exists>u. reaches st u st'
        \<and> den ic (Seq r1 r2) (pos st = 0) u (rest st') (grp st) (grp st')"
      using u1(2) u2(2) by (intro exI [of _ "u1 @ u2"]) auto
  next
    assume "\<exists>u. reaches st u st'
        \<and> den ic (Seq r1 r2) (pos st = 0) u (rest st') (grp st) (grp st')"
    then obtain u1 u2 gm where r: "reaches st (u1 @ u2) st'"
      and d1: "den ic r1 (pos st = 0) u1 (u2 @ rest st') (grp st) gm"
      and d2: "den ic r2 (pos st = 0 \<and> u1 = []) u2 (rest st') gm (grp st')"
      by auto
    define sm where "sm = \<lparr>pos = pos st + length u1, rest = u2 @ rest st', grp = gm\<rparr>"
    have "reaches st u1 sm" using r by (simp add: reaches_def sm_def)
    with d1 have in1: "sm \<in> set (ms ic r1 st)"
      using Seq.IH(1) [of sm st] by (auto simp: sm_def)
    have "reaches sm u2 st'" using r by (simp add: reaches_def sm_def)
    moreover have "(pos sm = 0) = (pos st = 0 \<and> u1 = [])" by (simp add: sm_def)
    ultimately have "st' \<in> set (ms ic r2 sm)"
      using d2 Seq.IH(2) [of st' sm] by (auto simp: sm_def)
    with in1 show "st' \<in> set (ms ic (Seq r1 r2) st)" by auto
  qed
next
  case (Alt r1 r2)
  show ?case using Alt.IH by auto
next
  case (Opt r)
  show ?case using Opt.IH by (auto simp: reaches_def intro: mstate_eqI)
next
  case (Star cs)
  show ?case
    using star_states [of st' st 0 "cset_match ic cs"]
    by (simp del: upt_Suc)
next
  case (Plus cs)
  show ?case
    using star_states [of st' st 1 "cset_match ic cs"]
    by (simp del: upt_Suc) (metis One_nat_def Suc_le_eq length_greater_0_conv)
next
  case (Grp r)
  show ?case
  proof
    assume "st' \<in> set (ms ic (Grp r) st)"
    then obtain sm where sm: "sm \<in> set (ms ic r st)"
      and st': "st' = sm\<lparr>grp := Some (take (pos sm - pos st) (rest st))\<rparr>"
      by auto
    from sm obtain u where u: "reaches st u sm"
        "den ic r (pos st = 0) u (rest sm) (grp st) (grp sm)"
      using Grp.IH by blast
    have "take (pos sm - pos st) (rest st) = u" using u(1) by (simp add: reaches_def)
    with st' u show "\<exists>u. reaches st u st'
        \<and> den ic (Grp r) (pos st = 0) u (rest st') (grp st) (grp st')"
      by (intro exI [of _ u]) (auto simp: reaches_def)
  next
    assume "\<exists>u. reaches st u st'
        \<and> den ic (Grp r) (pos st = 0) u (rest st') (grp st) (grp st')"
    then obtain u gm where r: "reaches st u st'"
      and d: "den ic r (pos st = 0) u (rest st') (grp st) gm" and g: "grp st' = Some u"
      by auto
    define sm where "sm = st'\<lparr>grp := gm\<rparr>"
    have "reaches st u sm" using r by (simp add: reaches_def sm_def)
    with d have "sm \<in> set (ms ic r st)"
      using Grp.IH [of sm st] by (auto simp: sm_def)
    moreover have "st' = sm\<lparr>grp := Some (take (pos sm - pos st) (rest st))\<rparr>"
      using r g by (simp add: sm_def reaches_def)
    ultimately show "st' \<in> set (ms ic (Grp r) st)" by (simp add: image_iff) blast
  qed
qed

lemma re_match_iff:
  "re_match ic r s \<noteq> None \<longleftrightarrow> (\<exists>u q g'. s = u @ q \<and> den ic r True u q None g')"
proof -
  let ?st = "\<lparr>pos = 0, rest = s, grp = None\<rparr>"
  have "re_match ic r s \<noteq> None \<longleftrightarrow> (\<exists>st'. st' \<in> set (ms ic r ?st))"
    by (cases "ms ic r ?st") (auto simp: re_match_def)
  also have "\<dots> \<longleftrightarrow> (\<exists>u q g'. s = u @ q \<and> den ic r True u q None g')"
  proof
    assume "\<exists>st'. st' \<in> set (ms ic r ?st)"
    then obtain st' u where "reaches ?st u st'" "den ic r True u (rest st') None (grp st')"
      using ms_iff_den [of _ ic r ?st] by auto
    then show "\<exists>u q g'. s = u @ q \<and> den ic r True u q None g'"
      by (auto simp: reaches_def)
  next
    assume "\<exists>u q g'. s = u @ q \<and> den ic r True u q None g'"
    then obtain u q g' where s: "s = u @ q" and d: "den ic r True u q None g'" by blast
    define st' where "st' = \<lparr>pos = length u, rest = q, grp = g'\<rparr>"
    have "reaches ?st u st'" using s by (simp add: reaches_def st'_def)
    with d have "st' \<in> set (ms ic r ?st)"
      using ms_iff_den [of st' ic r ?st] by (auto simp: st'_def)
    then show "\<exists>st'. st' \<in> set (ms ic r ?st)" by blast
  qed
  finally show ?thesis .
qed

lemma re_match_Some:
  assumes "re_match ic r s = Some m"
  shows "\<exists>u. s = u @ rest m \<and> den ic r True u (rest m) None (grp m)"
proof -
  let ?st = "\<lparr>pos = 0, rest = s, grp = None\<rparr>"
  from assms have "m \<in> set (ms ic r ?st)"
    by (cases "ms ic r ?st") (auto simp: re_match_def)
  then show ?thesis
    using ms_iff_den [of m ic r ?st] by (auto simp: reaches_def)
qed

lemma cset_space [simp]: "cset_match ic (In [CSpace]) = py_isspace"
  by (rule ext) simp

lemma cset_digit [simp]: "cset_match ic (In [CDigit]) = py_isdigit"
  by (rule ext) simp

lemma den_SeqI:
  "den ic r1 b u1 (u2 @ q) g gm \<Longrightarrow> den ic r2 (b \<and> u1 = []) u2 q gm g'
     \<Longrightarrow> den ic (Seq r1 r2) b (u1 @ u2) q g g'"
  by auto

lemma den_SeqE:
  assumes "den ic (Seq r1 r2) b u q g g'"
  obtains u1 u2 gm where "u = u1 @ u2" "den ic r1 b u1 (u2 @ q) g gm"
    "den ic r2 (b \<and> u1 = []) u2 q gm g'"
  using assms by auto

lemma den_lit:
  "den ic (lit w) b u q g g' \<longleftrightarrow> list_all2 (chr_match ic) w u \<and> g' = g"
proof (induction w arbitrary: b u g g' rule: lit.induct)
  case 1
  show ?case by auto
next
  case (2 c)
  show ?case by (auto simp: list_all2_Cons1)
next
  case (3 c v va)
  show ?case
  proof
    assume "den ic (lit (c # v # va)) b u q g g'"
    then have "den ic (Seq (Chr c) (lit (v # va))) b u q g g'" by simp
    then obtain u1 u2 gm where u: "u = u1 @ u2" and d1: "den ic (Chr c) b u1 (u2 @ q) g gm"
      and d2: "den ic (lit (v # va)) (b \<and> u1 = []) u2 q gm g'"
      by (rule den_SeqE)
    from d1 obtain x where "u1 = [x]" "chr_match ic c x" "gm = g" by auto
    with u d2 show "list_all2 (chr_match ic) (c # v # va) u \<and> g' = g"
      by (simp add: 3)
  next
    assume a: "list_all2 (chr_match ic) (c # v # va) u \<and> g' = g"
    then obtain x u2 where u: "u = [x] @ u2" and x: "chr_match ic c x"
      and r: "list_all2 (chr_match ic) (v # va) u2"
      by (auto simp: list_all2_Cons1)
    have "den ic (Chr c) b [x] (u2 @ q) g g" using x by simp
    moreover have "den ic (lit (v # va)) (b \<and> [x] = []) u2 q g g'"
      using r a by (simp add: 3)
    ultimately have "den ic (Seq (Chr c) (lit (v # va))) b ([x] @ u2) q g g'"
      by (rule den_SeqI)
    with u show "den ic (lit (c # v # va)) b u q g g'" by simp
  qed
qed

lemma py_strip_last:
  "py_strip t = [] \<or> \<not> py_isspace (last (py_strip t))"
proof -
  define y where "y = dropWhile py_isspace (rev (py_lstrip t))"
  have "py_strip t = rev y" by (simp add: py_strip_def py_rstrip_def y_def)
  moreover have "y \<noteq> [] \<Longrightarrow> \<not> py_isspace (hd y)"
    unfolding y_def by (rule hd_dropWhile)
  ultimately show ?thesis by (cases y) (auto simp: last_rev)
qed

lemma isspace_10: "py_isspace 10"
  by (simp add: py_isspace_def)

lemma no_trailing_space:
  assumes "s = [] \<or> \<not> py_isspace (last s)"
    and "s = a @ w @ q" and "list_all py_isspace w" and "q = [] \<or> q = [10]"
  shows "w = [] \<and> q = []"
proof -
  have q: "q = []"
  proof (rule ccontr)
    assume "q \<noteq> []"
    with assms(4) have "q = [10]" by simp
    with assms(2) have "s \<noteq> []" "last s = 10" by simp_all
    with assms(1) isspace_10 show False by simp
  qed
  have "w = []"
  proof (rule ccontr)
    assume w: "w \<noteq> []"
    with assms(2) q have "s \<noteq> []" "last s = last w" by simp_all
    moreover from w assms(3) have "py_isspace (last w)"
      by (simp add: list_all_iff)
    ultimately show False using assms(1) by simp
  qed
  with q show ?thesis by simp
qed

section \<open>The references heading (claim C9)\<close>

lemma den_heading_word:
  "den True (seqs [Bol, lit w, Star (In [CSpace]), Eol]) True u q None g' \<longleftrightarrow>
     (\<exists>a sp. u = a @ sp \<and> ci_equal w a \<and> list_all py_isspace sp)
     \<and> (q = [] \<or> q = [10]) \<and> g' = None"
  by (auto simp: den_lit ci_equal_def)

lemma ci_equal_snoc:
  "ci_equal (w @ [p]) a \<longleftrightarrow> (\<exists>a1 c. a = a1 @ [c] \<and> ci_equal w a1 \<and> chr_match True p c)"
proof
  assume "ci_equal (w @ [p]) a"
  then obtain us vs where "a = us @ vs" "list_all2 (chr_match True) w us"
      "list_all2 (chr_match True) [p] vs"
    unfolding ci_equal_def list_all2_append1 by blast
  then show "\<exists>a1 c. a = a1 @ [c] \<and> ci_equal w a1 \<and> chr_match True p c"
    by (auto simp: ci_equal_def list_all2_Cons1)
next
  assume "\<exists>a1 c. a = a1 @ [c] \<and> ci_equal w a1 \<and> chr_match True p c"
  then show "ci_equal (w @ [p]) a"
    by (auto simp: ci_equal_def intro: list_all2_appendI)
qed

lemma den_heading_word_s:
  "den True (seqs [Bol, lit w, Opt (Chr 115), Star (In [CSpace]), Eol]) True u q None g' \<longleftrightarrow>
     (\<exists>a sp. u = a @ sp \<and> (ci_equal w a \<or> ci_equal (w @ [115]) a) \<and> list_all py_isspace sp)
     \<and> (q = [] \<or> q = [10]) \<and> g' = None"
  (is "?L \<longleftrightarrow> ?R")
proof
  assume ?L
  then obtain a x sp where u: "u = a @ x @ sp" and a: "ci_equal w a"
    and x: "x = [] \<or> (\<exists>c. x = [c] \<and> chr_match True 115 c)"
    and sp: "list_all py_isspace sp" and rest: "(q = [] \<or> q = [10]) \<and> g' = None"
    by (auto simp: den_lit ci_equal_def)
  from x show ?R
  proof
    assume "x = []"
    with u a sp rest show ?R by auto
  next
    assume "\<exists>c. x = [c] \<and> chr_match True 115 c"
    then obtain c where c: "x = [c]" "chr_match True 115 c" by blast
    with a have "ci_equal (w @ [115]) (a @ [c])" by (auto simp: ci_equal_snoc)
    moreover have "u = (a @ [c]) @ sp" using u c by simp
    ultimately show ?R using sp rest by blast
  qed
next
  assume r: ?R
  then obtain a sp where u: "u = a @ sp" and sp: "list_all py_isspace sp"
    and a: "ci_equal w a \<or> ci_equal (w @ [115]) a"
    and rest: "(q = [] \<or> q = [10])" "g' = None"
    by blast
  from a obtain a1 x where ax: "a = a1 @ x" "ci_equal w a1"
      "x = [] \<or> (\<exists>c. x = [c] \<and> chr_match True 115 c)"
    by (auto simp: ci_equal_snoc)
  have "den True (Seq (Opt (Chr 115)) (Seq (Star (In [CSpace])) Eol)) False (x @ sp) q None g'"
    using ax(3) sp rest by auto
  then have "den True (Seq (lit w) (Seq (Opt (Chr 115)) (Seq (Star (In [CSpace])) Eol)))
      True (a1 @ x @ sp) q None g'"
    using ax(2) unfolding den.simps(6) [of True "lit w"]
    by (intro exI [of _ a1] exI [of _ "x @ sp"] exI [of _ None])
       (cases "a1 = []", auto simp: den_lit ci_equal_def)
  then show ?L using u ax(1) by simp
qed

lemma heading_match_stripped:
  assumes "s = [] \<or> \<not> py_isspace (last s)"
  shows "re_match True REFERENCES_HEADING s \<noteq> None \<longleftrightarrow>
     ci_equal (str ''Reference'') s \<or> ci_equal (str ''References'') s
     \<or> ci_equal (str ''Bibliography'') s \<or> ci_equal (str ''References Cited'') s"
proof -
  define W where "W a \<longleftrightarrow> (ci_equal (str ''Reference'') a \<or> ci_equal (str ''Reference'' @ [115]) a)
     \<or> ci_equal (str ''Bibliography'') a \<or> ci_equal (str ''References Cited'') a" for a
  have s_word: "str ''References'' = str ''Reference'' @ [115]"
    by (simp add: str_def)
  have den: "den True REFERENCES_HEADING True u q None g' \<longleftrightarrow>
      (\<exists>a sp. u = a @ sp \<and> W a \<and> list_all py_isspace sp) \<and> (q = [] \<or> q = [10]) \<and> g' = None"
    for u q g'
    unfolding REFERENCES_HEADING_def den.simps(7) den_heading_word den_heading_word_s W_def
    by blast
  have "re_match True REFERENCES_HEADING s \<noteq> None \<longleftrightarrow> W s"
  proof
    assume "re_match True REFERENCES_HEADING s \<noteq> None"
    then obtain u q g' where "s = u @ q" "den True REFERENCES_HEADING True u q None g'"
      unfolding re_match_iff by blast
    then obtain a sp where s: "s = a @ sp @ q" and a: "W a" and sp: "list_all py_isspace sp"
      and q: "q = [] \<or> q = [10]"
      unfolding den by auto
    from no_trailing_space [OF assms s sp q] s have "s = a" by simp
    with a show "W s" by simp
  next
    assume "W s"
    then have "den True REFERENCES_HEADING True s [] None None"
      unfolding den by (intro conjI exI [of _ s] exI [of _ "[]"]) simp_all
    then show "re_match True REFERENCES_HEADING s \<noteq> None"
      unfolding re_match_iff by (intro exI [of _ s] exI [of _ "[]"] exI [of _ None]) simp
  qed
  then show ?thesis by (simp add: W_def s_word)
qed

lemma is_references_heading_iff:
  "is_references_heading t \<longleftrightarrow>
     ci_equal (str ''Reference'') (py_strip t) \<or> ci_equal (str ''References'') (py_strip t)
     \<or> ci_equal (str ''Bibliography'') (py_strip t)
     \<or> ci_equal (str ''References Cited'') (py_strip t)"
  unfolding is_references_heading_def
  by (rule heading_match_stripped) (rule py_strip_last)

lemma find_references_start_None:
  "find_references_start i ps = None \<longleftrightarrow>
     (\<forall>p \<in> set ps. \<not> is_references_heading (para_text p))"
  by (induction ps arbitrary: i) auto

lemma find_references_start_Some:
  "find_references_start i ps = Some k \<Longrightarrow>
     i \<le> k \<and> k - i < length ps \<and> is_references_heading (para_text (ps ! (k - i)))
     \<and> (\<forall>j < k - i. \<not> is_references_heading (para_text (ps ! j)))"
proof (induction ps arbitrary: i)
  case Nil
  then show ?case by simp
next
  case (Cons p ps)
  show ?case
  proof (cases "is_references_heading (para_text p)")
    case True
    with Cons.prems show ?thesis by simp
  next
    case False
    with Cons.prems have "find_references_start (i + 1) ps = Some k" by simp
    from Cons.IH [OF this] have ih: "i + 1 \<le> k" "k - (i + 1) < length ps"
        "is_references_heading (para_text (ps ! (k - (i + 1))))"
        "\<forall>j < k - (i + 1). \<not> is_references_heading (para_text (ps ! j))"
      by simp_all
    from ih(1) have k: "k - i = Suc (k - (i + 1))" by simp
    show ?thesis
      using ih False unfolding k
      by (auto simp: nth_Cons split: nat.splits)
  qed
qed

lemma remove_paragraphs_from_paragraphs:
  "paragraphs_of (remove_paragraphs_from k b) = take k (paragraphs_of b)"
  by (induction k b rule: remove_paragraphs_from.induct) (auto simp: take_Cons split: nat.splits)

lemma remove_paragraphs_from_others:
  "filter (\<lambda>x. \<not> is_para x) (remove_paragraphs_from k b) = filter (\<lambda>x. \<not> is_para x) b"
  by (induction k b rule: remove_paragraphs_from.induct) auto

text \<open>
  C9, as the code has it. A paragraph text is a references heading exactly when, trimmed,
  it is, up to case, one of \<^verbatim>\<open>Reference\<close>, \<^verbatim>\<open>References\<close>, \<^verbatim>\<open>Bibliography\<close>
  and \<^verbatim>\<open>References Cited\<close>. If no paragraph of the body is one, nothing is deleted:
  the new paragraphs are put in front of the section properties of the body as it is.
  Otherwise the search stops at the first heading, and of the paragraphs of the body
  exactly those before it stay (all other elements stay as well) before the new
  paragraphs are put in.
\<close>

theorem references_heading_recognition:
  "(is_references_heading t \<longleftrightarrow>
      ci_equal (str ''Reference'') (py_strip t) \<or> ci_equal (str ''References'') (py_strip t)
      \<or> ci_equal (str ''Bibliography'') (py_strip t)
      \<or> ci_equal (str ''References Cited'') (py_strip t))
   \<and> ((\<forall>p \<in> set (paragraphs_of body). \<not> is_references_heading (para_text p))
        \<longrightarrow> update_body new body = insert_before_sectpr new body)
   \<and> (find_references_start 0 (paragraphs_of body) = Some i
        \<longrightarrow> i < length (paragraphs_of body)
            \<and> is_references_heading (para_text (paragraphs_of body ! i))
            \<and> (\<forall>j < i. \<not> is_references_heading (para_text (paragraphs_of body ! j)))
            \<and> update_body new body = insert_before_sectpr new (remove_paragraphs_from i body)
            \<and> paragraphs_of (remove_paragraphs_from i body) = take i (paragraphs_of body)
            \<and> filter (\<lambda>x. \<not> is_para x) (remove_paragraphs_from i body)
                = filter (\<lambda>x. \<not> is_para x) body)"
proof (intro conjI impI)
  show "is_references_heading t \<longleftrightarrow>
      ci_equal (str ''Reference'') (py_strip t) \<or> ci_equal (str ''References'') (py_strip t)
      \<or> ci_equal (str ''Bibliography'') (py_strip t)
      \<or> ci_equal (str ''References Cited'') (py_strip t)"
    by (rule is_references_heading_iff)
next
  assume "\<forall>p \<in> set (paragraphs_of body). \<not> is_references_heading (para_text p)"
  then have "find_references_start 0 (paragraphs_of body) = None"
    by (simp add: find_references_start_None)
  then show "update_body new body = insert_before_sectpr new body"
    by (simp add: update_body_def insert_before_sectpr_def Let_def)
next
  assume a: "find_references_start 0 (paragraphs_of body) = Some i"
  from find_references_start_Some [OF a]
  show "i < length (paragraphs_of body)"
    and "is_references_heading (para_text (paragraphs_of body ! i))"
    and "\<forall>j < i. \<not> is_references_heading (para_text (paragraphs_of body ! j))"
    by simp_all
  from a show "update_body new body = insert_before_sectpr new (remove_paragraphs_from i body)"
    by (simp add: update_body_def insert_before_sectpr_def Let_def)
  show "paragraphs_of (remove_paragraphs_from i body) = take i (paragraphs_of body)"
    by (rule remove_paragraphs_from_paragraphs)
  show "filter (\<lambda>x. \<not> is_para x) (remove_paragraphs_from i body)
          = filter (\<lambda>x. \<not> is_para x) body"
    by (rule remove_paragraphs_from_others)
qed

lemma ci_equal_eval:
  "ci_equal [] s \<longleftrightarrow> s = []"
  "ci_equal (p # w) s \<longleftrightarrow> (case s of [] \<Rightarrow> False | c # cs \<Rightarrow> chr_match True p c \<and> ci_equal w cs)"
  by (auto simp: ci_equal_def list_all2_Cons1 split: list.splits)

lemmas heading_eval = is_references_heading_iff ci_equal_eval str_def py_strip_def
  py_lstrip_def py_rstrip_def py_isspace_def chr_match_def lower_cp_def Let_def

lemma heading_singular: "is_references_heading (str ''Reference'')"
  by (simp add: heading_eval)

lemma heading_samples:
  "\<not> is_references_heading (str ''Intro'')" "\<not> is_references_heading (str ''Old entry'')"
  "is_references_heading (str '' BIBLIOGRAPHY '')"
  by (simp_all add: heading_eval)

theorem references_heading_recognition_witness:
  "is_references_heading (str '' BIBLIOGRAPHY '')
   \<and> find_references_start 0 (paragraphs_of sample_body) = Some 1
   \<and> update_body new_section sample_body
       = insert_before_sectpr new_section (remove_paragraphs_from 1 sample_body)
   \<and> paragraphs_of (remove_paragraphs_from 1 sample_body) = [[Some (str ''Intro'')]]"
proof -
  have f: "find_references_start 0 (paragraphs_of sample_body) = Some 1"
    by (simp add: sample_body_def para_text_def heading_singular heading_samples)
  from references_heading_recognition [of "str '' BIBLIOGRAPHY ''" sample_body new_section 1] f
    heading_samples(3)
  show ?thesis by (simp add: sample_body_def)
qed

text \<open>
  The claim as stated fails on the singular: a paragraph that reads \<^verbatim>\<open>Reference\<close> is
  taken for the heading, and it and the paragraph after it are replaced by the new section.
\<close>

theorem singular_reference_counterexample:
  "is_references_heading (str ''Reference'')
   \<and> update_body new_section sample_body
       = [Para [Some (str ''Intro'')], Para [Some (str ''References'')],
          Para [Some (str ''New entry'')], SectPr]"
  by (simp add: heading_singular heading_samples update_body_def sample_body_def
      new_section_def para_text_def)

section \<open>The fallback of the author-date engine (claim C5)\<close>








section \<open>The confidence formula (claim C6)\<close>











section \<open>Failure of link activation (claim C10)\<close>

lemma process_targets_failure:
  "process_targets z ts fs = Inl ex \<Longrightarrow>
     \<exists>t \<in> set ts. \<exists>fs'. path_exists z fs' (fst t)
        \<and> process_xml_file z (fst t) (snd t) fs' = Inl ex"
proof (induction z ts fs rule: process_targets.induct)
  case (1 z fs)
  then show ?case by simp
next
  case (2 z xml_file rels_file ts fs)
  then show ?case
    by (auto split: if_splits sum.splits)
qed



section \<open>The ibid recognizer (claim C7)\<close>

lemma pureD: "pure ic r P \<Longrightarrow> den ic r b u q g g' = (P u \<and> g' = g)"
  by (simp add: pure_def)

lemma pure_eq: "pure ic r P \<Longrightarrow> (\<And>u. P u = Q u) \<Longrightarrow> pure ic r Q"
  by (simp add: pure_def)

lemma pure_lit: "pure True (lit w) (ci_equal w)"
  by (simp add: pure_def den_lit ci_equal_def)

lemma pure_Seq: "pure ic r1 P \<Longrightarrow> pure ic r2 Q \<Longrightarrow> pure ic (Seq r1 r2) (cat P Q)"
  by (auto simp: pure_def cat_def)

lemma pure_Alt: "pure ic r1 P \<Longrightarrow> pure ic r2 Q \<Longrightarrow> pure ic (Alt r1 r2) (\<lambda>u. P u \<or> Q u)"
  by (auto simp: pure_def)

lemma pure_Opt: "pure ic r P \<Longrightarrow> pure ic (Opt r) (\<lambda>u. P u \<or> u = [])"
  by (auto simp: pure_def)

lemma pure_spaces: "pure ic (Star (In [CSpace])) spaces"
  by (simp add: pure_def spaces_def)

lemma pure_spaces1: "pure ic (Plus (In [CSpace])) (\<lambda>w. w \<noteq> [] \<and> spaces w)"
  by (simp add: pure_def spaces_def)

lemma pure_digits: "pure ic (Star (In [CDigit])) digits"
  by (simp add: pure_def digits_def)

lemma pure_digits1: "pure ic (Plus (In [CDigit])) (\<lambda>w. w \<noteq> [] \<and> digits w)"
  by (simp add: pure_def digits_def)

lemma chr_match_44: "chr_match ic 44 c \<longleftrightarrow> c = 44"
  by (auto simp: chr_match_def lower_cp_def)

lemma chr_match_45: "chr_match ic 45 c \<longleftrightarrow> c = 45"
  by (auto simp: chr_match_def lower_cp_def)

lemma chr_match_46: "chr_match ic 46 c \<longleftrightarrow> c = 46"
  by (auto simp: chr_match_def lower_cp_def)

lemma chr_match_8211: "chr_match ic 8211 c \<longleftrightarrow> c = 8211"
  by (auto simp: chr_match_def lower_cp_def)

lemma pure_opt_dot: "pure ic (Opt (Chr 46)) opt_dot"
  by (auto simp: pure_def opt_dot_def chr_match_46)

lemma pure_opt_punct:
  "pure ic (Opt (Cls (In [CChr 44, CChr 46]))) (\<lambda>p. p = [] \<or> p = [44] \<or> p = [46])"
  by (auto simp: pure_def chr_match_44 chr_match_46)

lemma pure_opt_dash:
  "pure ic (Opt (Cls (In [CChr 45, CChr 8211]))) (\<lambda>d. d = [] \<or> d = [45] \<or> d = [8211])"
  by (auto simp: pure_def chr_match_45 chr_match_8211)

lemma cat_assoc: "cat (cat P Q) R = cat P (cat Q R)"
proof (rule ext)
  fix u
  show "cat (cat P Q) R u = cat P (cat Q R) u"
  proof
    assume "cat (cat P Q) R u"
    then obtain a b c where "u = (a @ b) @ c" "P a" "Q b" "R c"
      by (auto simp: cat_def)
    then have "u = a @ (b @ c)" "P a" "cat Q R (b @ c)"
      by (auto simp: cat_def)
    then show "cat P (cat Q R) u" unfolding cat_def [of P] by blast
  next
    assume "cat P (cat Q R) u"
    then obtain a b c where "u = a @ (b @ c)" "P a" "Q b" "R c"
      by (auto simp: cat_def)
    then have "u = (a @ b) @ c" "cat P Q (a @ b)" "R c"
      by (auto simp: cat_def)
    then show "cat (cat P Q) R u" unfolding cat_def [of "cat P Q"] by blast
  qed
qed

lemma cat_disj: "cat (\<lambda>w. A w \<or> B w) D u \<longleftrightarrow> cat A D u \<or> cat B D u"
  by (auto simp: cat_def)

lemma pure_IBID_HEAD: "pure True IBID_HEAD ibid_head"
proof -
  have "pure True IBID_HEAD (\<lambda>u. cat (ci_equal (str ''ibid'')) opt_dot u
      \<or> (cat (ci_equal (str ''ibidem'')) opt_dot u \<or> cat (ci_equal (str ''id'')) opt_dot u))"
    unfolding IBID_HEAD_def
    by (intro pure_Alt pure_Seq pure_lit pure_opt_dot)
  then show ?thesis
    by (rule pure_eq) (simp add: ibid_head_def cat_disj)
qed

lemma ibid_sep_Nil: "ibid_sep []"
  by (simp add: ibid_sep_def cat_def spaces_def)

lemma pure_IBID_SEP: "pure True (Opt IBID_SEP) ibid_sep"
proof -
  have "pure True (Opt IBID_SEP)
      (\<lambda>u. (cat (ci_equal (str ''at'')) (\<lambda>w. w \<noteq> [] \<and> spaces w) u
            \<or> cat (\<lambda>p. p = [] \<or> p = [44] \<or> p = [46]) spaces u) \<or> u = [])"
    unfolding IBID_SEP_def
    by (intro pure_Opt pure_Alt pure_Seq pure_lit pure_spaces pure_spaces1 pure_opt_punct)
  then show ?thesis
    by (rule pure_eq) (use ibid_sep_Nil in \<open>auto simp: ibid_sep_def\<close>)
qed

lemma pure_chr: "pure ic (Chr p) (\<lambda>u. \<exists>c. u = [c] \<and> chr_match ic p c)"
  by (simp add: pure_def)

lemma one_or_two_p:
  "cat (\<lambda>u. \<exists>c. u = [c] \<and> chr_match True 112 c)
       (\<lambda>u. (\<exists>c. u = [c] \<and> chr_match True 112 c) \<or> u = []) p
   \<longleftrightarrow> ci_equal (str ''p'') p \<or> ci_equal (str ''pp'') p"
  (is "?L \<longleftrightarrow> ?R")
proof
  assume ?L
  then show ?R by (auto simp: cat_def ci_equal_def str_def list_all2_Cons1)
next
  assume ?R
  then consider c where "p = [c] @ []" "chr_match True 112 c"
    | c c' where "p = [c] @ [c']" "chr_match True 112 c" "chr_match True 112 c'"
    by (auto simp: ci_equal_def str_def list_all2_Cons1)
  then show ?L
  proof cases
    case 1
    then show ?thesis unfolding cat_def by blast
  next
    case 2
    then show ?thesis unfolding cat_def by blast
  qed
qed

lemma pure_IBID_PP: "pure True (Opt IBID_PP) ibid_pp"
proof -
  have "pure True IBID_PP
      (cat (\<lambda>u. \<exists>c. u = [c] \<and> chr_match True 112 c)
        (cat (\<lambda>u. (\<exists>c. u = [c] \<and> chr_match True 112 c) \<or> u = []) (cat opt_dot spaces)))"
    unfolding IBID_PP_def seqs.simps
    by (intro pure_Seq pure_Opt pure_chr pure_opt_dot pure_spaces)
  then have "pure True IBID_PP
      (cat (\<lambda>p. ci_equal (str ''p'') p \<or> ci_equal (str ''pp'') p) (cat opt_dot spaces))"
    unfolding cat_assoc [symmetric, of "\<lambda>u. \<exists>c. u = [c] \<and> chr_match True 112 c"]
    by (rule pure_eq) (simp add: cat_def [of _ "cat opt_dot spaces"] one_or_two_p)
  then have "pure True (Opt IBID_PP)
      (\<lambda>u. cat (\<lambda>p. ci_equal (str ''p'') p \<or> ci_equal (str ''pp'') p) (cat opt_dot spaces) u
           \<or> u = [])"
    by (rule pure_Opt)
  then show ?thesis
    by (rule pure_eq) (auto simp: ibid_pp_def)
qed

lemma pure_IBID_PAGE: "pure True IBID_PAGE page_range"
  unfolding IBID_PAGE_def seqs.simps page_range_def
  by (intro pure_Seq pure_digits pure_digits1 pure_opt_dash)

declare den.simps [simp del]

lemma page_range_ne: "page_range u \<Longrightarrow> u \<noteq> []"
  by (auto simp: page_range_def cat_def)

lemma den_group:
  "den True (Opt (Grp IBID_PAGE)) b u q g g' \<longleftrightarrow>
     (u = [] \<or> page_range u) \<and> g' = (if u = [] then g else Some u)"
  using page_range_ne [of u]
  by (auto simp: den.simps pureD [OF pure_IBID_PAGE])

lemma pure_Seq_left:
  "pure ic r1 P \<Longrightarrow>
   den ic (Seq r1 r2) b u q g g' =
     (\<exists>u1 u2. u = u1 @ u2 \<and> P u1 \<and> den ic r2 (b \<and> u1 = []) u2 q g g')"
  by (auto simp: pure_def den.simps)

lemma body_empty: "cat spaces (cat ibid_sep (cat ibid_pp (\<lambda>v. v = []))) []"
  by (simp add: cat_def spaces_def ibid_sep_Nil ibid_pp_def)

lemma den_IBID_BODY:
  "den True IBID_BODY b u q g g' \<longleftrightarrow>
     (\<exists>pg. (pg = [] \<or> page_range pg) \<and> g' = (if pg = [] then g else Some pg)
        \<and> cat spaces (cat ibid_sep (cat ibid_pp (\<lambda>v. v = pg))) u)"
  (is "?L \<longleftrightarrow> ?R")
proof -
  have inner: "den True (Seq (Star (In [CSpace])) (Seq (Opt IBID_SEP) (Seq (Opt IBID_PP)
        (Opt (Grp IBID_PAGE))))) b u q g g' \<longleftrightarrow> ?R"
    (is "?I \<longleftrightarrow> ?R")
  proof
    assume ?I
    then obtain w x p pg where u: "u = w @ x @ p @ pg" and w: "spaces w" and x: "ibid_sep x"
      and p: "ibid_pp p" and pg: "pg = [] \<or> page_range pg"
      and g: "g' = (if pg = [] then g else Some pg)"
      unfolding pure_Seq_left [OF pure_spaces] pure_Seq_left [OF pure_IBID_SEP]
        pure_Seq_left [OF pure_IBID_PP] den_group
      by blast
    have "cat ibid_pp (\<lambda>v. v = pg) (p @ pg)" using p by (auto simp: cat_def)
    with x have "cat ibid_sep (cat ibid_pp (\<lambda>v. v = pg)) (x @ p @ pg)"
      unfolding cat_def [of ibid_sep] by blast
    with w have "cat spaces (cat ibid_sep (cat ibid_pp (\<lambda>v. v = pg))) (w @ x @ p @ pg)"
      unfolding cat_def [of spaces] by blast
    with u pg g show ?R by blast
  next
    assume ?R
    then obtain pg where pg: "pg = [] \<or> page_range pg"
      and g: "g' = (if pg = [] then g else Some pg)"
      and c: "cat spaces (cat ibid_sep (cat ibid_pp (\<lambda>v. v = pg))) u"
      by blast
    from c obtain w x p where u: "u = w @ x @ p @ pg" and w: "spaces w" and x: "ibid_sep x"
      and p: "ibid_pp p"
      by (auto simp: cat_def)
    have "den True (Opt (Grp IBID_PAGE)) False pg q g g'"
      using pg g by (simp add: den_group)
    then have d3: "den True (Opt (Grp IBID_PAGE)) b3 pg q g g'" for b3
      by (simp add: den_group)
    have d2: "den True (Seq (Opt IBID_PP) (Opt (Grp IBID_PAGE))) b2 (p @ pg) q g g'" for b2
      unfolding pure_Seq_left [OF pure_IBID_PP] using p d3 by blast
    have d1: "den True (Seq (Opt IBID_SEP) (Seq (Opt IBID_PP) (Opt (Grp IBID_PAGE))))
        b1 (x @ p @ pg) q g g'" for b1
      unfolding pure_Seq_left [OF pure_IBID_SEP] using x d2 by blast
    show ?I
      unfolding pure_Seq_left [OF pure_spaces] u using w d1 by blast
  qed
  have "u = [] \<and> g' = g \<Longrightarrow> ?R"
    using body_empty by auto
  with inner show ?thesis
    unfolding IBID_BODY_def seqs.simps den.simps(8) by blast
qed

lemma den_tail:
  "den True (Seq (Opt (Chr 46)) Eol) b u q g g' \<longleftrightarrow>
     opt_dot u \<and> (q = [] \<or> q = [10]) \<and> g' = g"
  unfolding pure_Seq_left [OF pure_opt_dot] by (auto simp: den.simps)

lemma IBID_PATTERN_parts:
  "IBID_PATTERN = Seq Bol (Seq IBID_HEAD (Seq IBID_BODY (Seq (Opt (Chr 46)) Eol)))"
  by (simp add: IBID_PATTERN_def IBID_BODY_def)

lemma den_IBID_PATTERN:
  "den True IBID_PATTERN True u q None g' \<longleftrightarrow>
     (\<exists>pg. ibid_form u pg \<and> g' = (if pg = [] then None else Some pg))
     \<and> (q = [] \<or> q = [10])"
  (is "?L \<longleftrightarrow> ?R")
proof
  assume ?L
  then have "den True (Seq IBID_HEAD (Seq IBID_BODY (Seq (Opt (Chr 46)) Eol))) True u q None g'"
    unfolding IBID_PATTERN_parts den.simps(6) [of True Bol] den.simps(4) by auto
  then obtain h v where u: "u = h @ v" and h: "ibid_head h"
    and v: "den True (Seq IBID_BODY (Seq (Opt (Chr 46)) Eol)) (h = []) v q None g'"
    unfolding pure_Seq_left [OF pure_IBID_HEAD] by auto
  from v obtain v1 d gm where vd: "v = v1 @ d"
    and body: "den True IBID_BODY (h = []) v1 (d @ q) None gm"
    and tail: "den True (Seq (Opt (Chr 46)) Eol) (h = [] \<and> v1 = []) d q gm g'"
    by (rule den_SeqE)
  from tail have d: "opt_dot d" and q: "q = [] \<or> q = [10]" and gm: "g' = gm"
    by (simp_all add: den_tail)
  from body obtain pg where pg: "pg = [] \<or> page_range pg"
    and g: "gm = (if pg = [] then None else Some pg)"
    and c: "cat spaces (cat ibid_sep (cat ibid_pp (\<lambda>v. v = pg))) v1"
    unfolding den_IBID_BODY by blast
  from c d vd have "cat (cat spaces (cat ibid_sep (cat ibid_pp (\<lambda>v. v = pg)))) opt_dot v"
    unfolding cat_def [of _ opt_dot] by blast
  then have "cat spaces (cat ibid_sep (cat ibid_pp (cat (\<lambda>v. v = pg) opt_dot))) v"
    by (simp only: cat_assoc)
  with h u have "cat ibid_head (cat spaces (cat ibid_sep (cat ibid_pp
      (cat (\<lambda>v. v = pg) opt_dot)))) u"
    unfolding cat_def [of ibid_head] by blast
  with pg have "ibid_form u pg" by (simp add: ibid_form_def)
  with g gm q show ?R by blast
next
  assume ?R
  then obtain pg where f: "ibid_form u pg" and g: "g' = (if pg = [] then None else Some pg)"
    and q: "q = [] \<or> q = [10]"
    by blast
  from f have pg: "pg = [] \<or> page_range pg"
    and c: "cat ibid_head (cat spaces (cat ibid_sep (cat ibid_pp
      (cat (\<lambda>v. v = pg) opt_dot)))) u"
    by (simp_all add: ibid_form_def)
  from c obtain h v where u: "u = h @ v" and h: "ibid_head h"
    and v: "cat spaces (cat ibid_sep (cat ibid_pp (cat (\<lambda>v. v = pg) opt_dot))) v"
    unfolding cat_def [of ibid_head] by blast
  from v have "cat (cat spaces (cat ibid_sep (cat ibid_pp (\<lambda>v. v = pg)))) opt_dot v"
    by (simp only: cat_assoc)
  then obtain v1 d where vd: "v = v1 @ d"
    and v1: "cat spaces (cat ibid_sep (cat ibid_pp (\<lambda>v. v = pg))) v1" and d: "opt_dot d"
    unfolding cat_def [of _ opt_dot] by blast
  have body: "den True IBID_BODY (h = []) v1 (d @ q) None g'"
    unfolding den_IBID_BODY using pg g v1 by blast
  have tail: "den True (Seq (Opt (Chr 46)) Eol) (h = [] \<and> v1 = []) d q g' g'"
    using d q by (simp add: den_tail)
  from body tail have "den True (Seq IBID_BODY (Seq (Opt (Chr 46)) Eol)) (h = []) (v1 @ d) q None g'"
    by (rule den_SeqI)
  with h have "den True (Seq IBID_HEAD (Seq IBID_BODY (Seq (Opt (Chr 46)) Eol))) True
      (h @ v1 @ d) q None g'"
    unfolding pure_Seq_left [OF pure_IBID_HEAD] by auto
  with u vd show ?L
    unfolding IBID_PATTERN_parts den.simps(6) [of True Bol] den.simps(4) by auto
qed

lemma digit_bounds: "py_isdigit c \<Longrightarrow> 48 \<le> c \<and> (c \<le> 57 \<or> 1632 \<le> c)"
  by (auto simp: py_isdigit_def nd_ranges_def)

lemma space_not_digit:
  assumes "py_isspace c"
  shows "\<not> py_isdigit c"
proof -
  have "list_all (\<lambda>v. \<not> py_isdigit v) [9, 10, 11, 12, 13, 28, 29, 30, 31, 32, 133, 160, 5760,
     8192, 8193, 8194, 8195, 8196, 8197, 8198, 8199, 8200, 8201, 8202,
     8232, 8233, 8239, 8287, 12288]"
    by (simp add: py_isdigit_def nd_ranges_def)
  then have "\<forall>v \<in> set [9, 10, 11, 12, 13, 28, 29, 30, 31, 32, 133, 160, 5760,
     8192, 8193, 8194, 8195, 8196, 8197, 8198, 8199, 8200, 8201, 8202,
     8232, 8233, 8239, 8287, 12288]. \<not> py_isdigit v"
    by (simp only: list_all_iff)
  with assms show ?thesis
    unfolding py_isspace_def by blast
qed

lemma not_digit_8490: "\<not> py_isdigit 8490"
  by (simp add: py_isdigit_def nd_ranges_def)

lemma letter_not_digit:
  assumes "chr_match True p c" and "97 \<le> p \<and> p \<le> 122"
  shows "\<not> py_isdigit c"
proof
  assume d: "py_isdigit c"
  from assms have "c = 8490 \<or> (65 \<le> c \<and> c \<le> 383)"
    by (auto simp: chr_match_def lower_cp_def)
  with d not_digit_8490 digit_bounds [OF d] show False by auto
qed

lemma ci_equal_no_digit:
  "ci_equal w a \<Longrightarrow> list_all (\<lambda>p. 97 \<le> p \<and> p \<le> 122) w \<Longrightarrow> no_digit a"
  unfolding ci_equal_def no_digit_def
  by (induction w a rule: list_all2_induct) (auto dest: letter_not_digit)

lemma no_digit_cat:
  "cat P Q u \<Longrightarrow> (\<And>v. P v \<Longrightarrow> no_digit v) \<Longrightarrow> (\<And>v. Q v \<Longrightarrow> no_digit v) \<Longrightarrow> no_digit u"
  by (auto simp: cat_def no_digit_def)

lemma no_digit_opt_dot: "opt_dot d \<Longrightarrow> no_digit d"
  using digit_bounds [of 46] by (auto simp: opt_dot_def no_digit_def)

lemma no_digit_spaces: "spaces w \<Longrightarrow> no_digit w"
  by (auto simp: spaces_def no_digit_def list_all_iff dest: space_not_digit)

lemma word_no_digit:
  "ci_equal (str ''ibid'') a \<Longrightarrow> no_digit a"
  "ci_equal (str ''ibidem'') a \<Longrightarrow> no_digit a"
  "ci_equal (str ''id'') a \<Longrightarrow> no_digit a"
  "ci_equal (str ''at'') a \<Longrightarrow> no_digit a"
  "ci_equal (str ''p'') a \<Longrightarrow> no_digit a"
  "ci_equal (str ''pp'') a \<Longrightarrow> no_digit a"
  using ci_equal_no_digit [of "str ''ibid''" a] ci_equal_no_digit [of "str ''ibidem''" a]
    ci_equal_no_digit [of "str ''id''" a] ci_equal_no_digit [of "str ''at''" a]
    ci_equal_no_digit [of "str ''p''" a] ci_equal_no_digit [of "str ''pp''" a]
  by (simp_all add: str_def)

lemma no_digit_head: "ibid_head h \<Longrightarrow> no_digit h"
proof -
  assume "ibid_head h"
  then have "cat (\<lambda>w. ci_equal (str ''ibid'') w \<or> ci_equal (str ''ibidem'') w
      \<or> ci_equal (str ''id'') w) opt_dot h"
    by (simp add: ibid_head_def)
  then show ?thesis
  proof (rule no_digit_cat)
    fix v
    assume "ci_equal (str ''ibid'') v \<or> ci_equal (str ''ibidem'') v \<or> ci_equal (str ''id'') v"
    then show "no_digit v" using word_no_digit(1-3) by blast
  next
    fix v
    assume "opt_dot v"
    then show "no_digit v" by (rule no_digit_opt_dot)
  qed
qed

lemma no_digit_sep: "ibid_sep x \<Longrightarrow> no_digit x"
proof -
  have punct: "p = [] \<or> p = [44] \<or> p = [46] \<Longrightarrow> no_digit p" for p
    using digit_bounds [of 44] digit_bounds [of 46] by (auto simp: no_digit_def)
  assume "ibid_sep x"
  then consider "cat (ci_equal (str ''at'')) (\<lambda>w. w \<noteq> [] \<and> spaces w) x"
    | "cat (\<lambda>p. p = [] \<or> p = [44] \<or> p = [46]) spaces x"
    unfolding ibid_sep_def by blast
  then show ?thesis
  proof cases
    case 1
    then show ?thesis
      by (rule no_digit_cat) (simp_all add: word_no_digit(4) no_digit_spaces)
  next
    case 2
    then show ?thesis
      by (rule no_digit_cat) (simp_all add: punct no_digit_spaces)
  qed
qed

lemma no_digit_pp: "ibid_pp p \<Longrightarrow> no_digit p"
proof -
  have t: "cat opt_dot spaces v \<Longrightarrow> no_digit v" for v
    by (erule no_digit_cat) (simp_all add: no_digit_opt_dot no_digit_spaces)
  assume "ibid_pp p"
  then consider "p = []"
    | "cat (\<lambda>p. ci_equal (str ''p'') p \<or> ci_equal (str ''pp'') p) (cat opt_dot spaces) p"
    unfolding ibid_pp_def by blast
  then show ?thesis
  proof cases
    case 1
    then show ?thesis by (simp add: no_digit_def)
  next
    case 2
    then show ?thesis
    proof (rule no_digit_cat)
      fix v
      assume "ci_equal (str ''p'') v \<or> ci_equal (str ''pp'') v"
      then show "no_digit v" using word_no_digit(5,6) by blast
    next
      fix v
      assume "cat opt_dot spaces v"
      then show "no_digit v" by (rule t)
    qed
  qed
qed

lemma ibid_head_ne: "ibid_head h \<Longrightarrow> h \<noteq> []"
  by (auto simp: ibid_head_def cat_def ci_equal_def str_def list_all2_Cons1)

lemma ibid_form_split:
  assumes "ibid_form s pg"
  shows "\<exists>pre d. s = pre @ pg @ d \<and> pre \<noteq> [] \<and> no_digit pre \<and> opt_dot d"
proof -
  from assms obtain h w x p d where s: "s = h @ w @ x @ p @ pg @ d"
    and parts: "ibid_head h" "spaces w" "ibid_sep x" "ibid_pp p" "opt_dot d"
    by (auto simp: ibid_form_def cat_def)
  have "no_digit (h @ w @ x @ p)"
    using no_digit_head [OF parts(1)] no_digit_spaces [OF parts(2)] no_digit_sep [OF parts(3)]
      no_digit_pp [OF parts(4)]
    by (simp add: no_digit_def)
  moreover have "h @ w @ x @ p \<noteq> []" using ibid_head_ne [OF parts(1)] by simp
  moreover have "s = (h @ w @ x @ p) @ pg @ d" using s by simp
  ultimately show ?thesis using parts(5) by blast
qed

lemma page_range_facts:
  assumes "page_range pg"
  shows "pg \<noteq> []" and "py_isdigit (hd pg)" and "46 \<notin> set pg"
    and "\<not> py_isspace (hd pg)" and "\<not> py_isspace (last pg)"
proof -
  from assms obtain a d b where pg: "pg = a @ d @ b" and a: "a \<noteq> []" "digits a"
    and d: "d = [] \<or> d = [45] \<or> d = [8211]" and b: "digits b"
    by (auto simp: page_range_def cat_def)
  show "pg \<noteq> []" using pg a by simp
  have hd: "hd pg = hd a" using pg a by simp
  show "py_isdigit (hd pg)"
    using a unfolding hd digits_def by (cases a) simp_all
  then show "\<not> py_isspace (hd pg)" using space_not_digit by blast
  have all: "c \<in> set pg \<Longrightarrow> py_isdigit c \<or> c = 45 \<or> c = 8211" for c
    using pg a(2) b d by (auto simp: digits_def list_all_iff)
  show "46 \<notin> set pg"
    using all [of 46] digit_bounds [of 46] by auto
  have "last pg \<in> set pg" using \<open>pg \<noteq> []\<close> by simp
  from all [OF this] show "\<not> py_isspace (last pg)"
    using space_not_digit [of "last pg"] by (auto simp: py_isspace_def)
qed

lemma find_page_unique:
  assumes "ibid_form s pg"
  shows "find_page s = pg"
proof -
  from ibid_form_split [OF assms] obtain pre d where s: "s = pre @ pg @ d"
    and pre: "no_digit pre" and d: "opt_dot d"
    by blast
  have pg: "pg = [] \<or> page_range pg" using assms by (simp add: ibid_form_def)
  have drop_pre: "dropWhile (\<lambda>c. \<not> py_isdigit c) s = dropWhile (\<lambda>c. \<not> py_isdigit c) (pg @ d)"
    unfolding s using pre by (intro dropWhile_append2) (simp add: no_digit_def list_all_iff)
  show ?thesis
  proof (cases "pg = []")
    case True
    have "dropWhile (\<lambda>c. \<not> py_isdigit c) d = []"
      using no_digit_opt_dot [OF d] by (simp add: no_digit_def list_all_iff)
    with True drop_pre show ?thesis by (simp add: find_page_def)
  next
    case False
    with pg have pr: "page_range pg" by simp
    have "dropWhile (\<lambda>c. \<not> py_isdigit c) (pg @ d) = pg @ d"
      using False page_range_facts(2) [OF pr] by (cases pg) simp_all
    with drop_pre have dr: "dropWhile (\<lambda>c. \<not> py_isdigit c) s = pg @ d" by simp
    from d show ?thesis
      unfolding opt_dot_def
    proof
      assume "d = []"
      moreover have "last pg \<noteq> 46"
        using page_range_facts(3) [OF pr] last_in_set [OF False] by metis
      ultimately show ?thesis using dr False by (simp add: find_page_def)
    next
      assume "d = [46]"
      with dr show ?thesis by (simp add: find_page_def butlast_append)
    qed
  qed
qed

lemma py_strip_id:
  assumes "s \<noteq> []" and "\<not> py_isspace (hd s)" and "\<not> py_isspace (last s)"
  shows "py_strip s = s"
proof -
  have l: "py_lstrip s = s"
    using assms(1,2) by (cases s) (simp_all add: py_lstrip_def)
  have "dropWhile py_isspace (rev s) = rev s"
    using assms(1,3) by (cases "rev s") (simp_all add: last_rev [symmetric] del: last_rev)
  then show ?thesis by (simp add: py_strip_def py_rstrip_def l)
qed

lemma stripped_whole:
  assumes "s = [] \<or> \<not> py_isspace (last s)" and "s = u @ q" and "q = [] \<or> q = [10]"
  shows "q = [] \<and> u = s"
  using no_trailing_space [OF assms(1), of u "[]" q] assms(2,3) by simp

lemma ibid_match_iff:
  assumes "s = [] \<or> \<not> py_isspace (last s)"
  shows "re_match True IBID_PATTERN s \<noteq> None \<longleftrightarrow> (\<exists>pg. ibid_form s pg)"
proof
  assume "re_match True IBID_PATTERN s \<noteq> None"
  then obtain u q g' where s: "s = u @ q" and d: "den True IBID_PATTERN True u q None g'"
    unfolding re_match_iff by blast
  from d obtain pg where f: "ibid_form u pg" and q: "q = [] \<or> q = [10]"
    unfolding den_IBID_PATTERN by blast
  from stripped_whole [OF assms s q] f show "\<exists>pg. ibid_form s pg" by blast
next
  assume "\<exists>pg. ibid_form s pg"
  then obtain pg where "ibid_form s pg" by blast
  then have "den True IBID_PATTERN True s [] None (if pg = [] then None else Some pg)"
    unfolding den_IBID_PATTERN by blast
  then show "re_match True IBID_PATTERN s \<noteq> None"
    unfolding re_match_iff by (intro exI [of _ s] exI [of _ "[]"]) auto
qed

lemma ibid_match_group:
  assumes "s = [] \<or> \<not> py_isspace (last s)" and "re_match True IBID_PATTERN s = Some m"
  shows "ibid_form s (find_page s)
     \<and> grp m = (if find_page s = [] then None else Some (find_page s))"
proof -
  from re_match_Some [OF assms(2)] obtain u where s: "s = u @ rest m"
    and d: "den True IBID_PATTERN True u (rest m) None (grp m)"
    by blast
  from d obtain pg where f: "ibid_form u pg" and g: "grp m = (if pg = [] then None else Some pg)"
    and q: "rest m = [] \<or> rest m = [10]"
    unfolding den_IBID_PATTERN by blast
  from stripped_whole [OF assms(1) s q] have "u = s" by simp
  with f have fs: "ibid_form s pg" by simp
  from find_page_unique [OF fs] fs g show ?thesis by simp
qed

lemma ibid_form_ne: "ibid_form s pg \<Longrightarrow> s \<noteq> []"
  using ibid_form_split [of s pg] by auto

lemma extract_ibid_page_eq:
  "extract_ibid_page t =
     (if (\<exists>pg. ibid_form (py_strip t) pg) \<and> find_page (py_strip t) \<noteq> []
      then Some (find_page (py_strip t)) else None)"
proof (cases "re_match True IBID_PATTERN (py_strip t)")
  case None
  then have "\<not> (\<exists>pg. ibid_form (py_strip t) pg)"
    using ibid_match_iff [OF py_strip_last, of t] by simp
  with None show ?thesis by (simp add: extract_ibid_page_def)
next
  case (Some m)
  let ?s = "py_strip t"
  from ibid_match_group [OF py_strip_last Some]
  have f: "ibid_form ?s (find_page ?s)"
    and g: "grp m = (if find_page ?s = [] then None else Some (find_page ?s))"
    by simp_all
  have t: "t \<noteq> []"
    using ibid_form_ne [OF f] by (auto simp: py_strip_def py_lstrip_def py_rstrip_def)
  show ?thesis
  proof (cases "find_page ?s = []")
    case True
    with Some g t show ?thesis by (simp add: extract_ibid_page_def truthy_def)
  next
    case False
    with f have pr: "page_range (find_page ?s)" by (simp add: ibid_form_def)
    have "py_strip (find_page ?s) = find_page ?s"
      using page_range_facts(1,4,5) [OF pr] by (rule py_strip_id)
    with Some g t False f show ?thesis
      by (auto simp: extract_ibid_page_def truthy_def)
  qed
qed

lemma is_ibid_iff: "is_ibid t \<longleftrightarrow> (\<exists>pg. ibid_form (py_strip t) pg)"
proof (cases "t = []")
  case True
  then have "py_strip t = []" by (simp add: py_strip_def py_lstrip_def py_rstrip_def)
  with True show ?thesis using ibid_form_ne by (auto simp: is_ibid_def)
next
  case False
  then show ?thesis
    using ibid_match_iff [OF py_strip_last, of t] by (simp add: is_ibid_def)
qed

text \<open>
  C7, as the code has it. \<open>is_ibid\<close> holds exactly when the trimmed text has the form
  described by \<open>ibid_form\<close>: one of \<^verbatim>\<open>ibid\<close>, \<^verbatim>\<open>ibidem\<close>, \<^verbatim>\<open>id\<close> in any case,
  with an optional full stop; then optional white space; then optionally \<^verbatim>\<open>at\<close>
  with white space after it, or a comma or full stop, with optional white space; then
  optionally \<^verbatim>\<open>p\<close> or \<^verbatim>\<open>pp\<close>, with an optional full stop and optional white
  space; then optionally a page range of digits, an optional hyphen or en dash and
  optional further digits; then an optional final full stop. \<open>extract_ibid_page\<close>
  returns the page range of this form when there is one, and null when the text is not
  of this form or has no page range. Both functions are total.
\<close>

theorem ibid_recognition:
  "(is_ibid t \<longleftrightarrow> (\<exists>pg. ibid_form (py_strip t) pg))
   \<and> (extract_ibid_page t = Some pg \<longleftrightarrow> pg \<noteq> [] \<and> ibid_form (py_strip t) pg)
   \<and> (extract_ibid_page t = None \<longleftrightarrow> \<not> is_ibid t \<or> ibid_form (py_strip t) [])"
proof (intro conjI)
  show "is_ibid t \<longleftrightarrow> (\<exists>pg. ibid_form (py_strip t) pg)"
    by (rule is_ibid_iff)
  show "extract_ibid_page t = Some pg \<longleftrightarrow> pg \<noteq> [] \<and> ibid_form (py_strip t) pg"
    unfolding extract_ibid_page_eq using find_page_unique [of "py_strip t"] by auto
  show "extract_ibid_page t = None \<longleftrightarrow> \<not> is_ibid t \<or> ibid_form (py_strip t) []"
  proof (cases "\<exists>pg. ibid_form (py_strip t) pg")
    case False
    then show ?thesis by (simp add: extract_ibid_page_eq is_ibid_iff)
  next
    case True
    then obtain pg0 where "ibid_form (py_strip t) pg0" by blast
    with find_page_unique [OF this] have f: "ibid_form (py_strip t) (find_page (py_strip t))"
      by simp
    have "find_page (py_strip t) = [] \<longleftrightarrow> ibid_form (py_strip t) []"
      using f find_page_unique [of "py_strip t" "[]"] by auto
    with True show ?thesis by (simp add: extract_ibid_page_eq is_ibid_iff)
  qed
qed

lemma ibid_45_eval:
  "is_ibid (str ''Ibid., 45'')" "extract_ibid_page (str ''Ibid., 45'') = Some (str ''45'')"
  by (simp_all add: ibid_eval rx_eval)

theorem ibid_recognition_witness:
  "is_ibid (str ''Ibid., 45'')
   \<and> extract_ibid_page (str ''Ibid., 45'') = Some (str ''45'')
   \<and> ibid_form (py_strip (str ''Ibid., 45'')) (str ''45'')"
  using ibid_recognition [of "str ''Ibid., 45''" "str ''45''"] ibid_45_eval
  by simp

text \<open>
  The claim as stated fails on \<^verbatim>\<open>ibid p 45\<close>: the page marker has no full stop, so
  the text is none of the forms of the claim, and \<open>is_ibid\<close> accepts it.
\<close>

theorem page_marker_counterexample:
  "is_ibid ibid_p_45 \<and> extract_ibid_page ibid_p_45 = Some (str ''45'')
   \<and> re_match True CLAIMED_IBID_FORMS (py_strip ibid_p_45) = None"
  by (simp add: ibid_p_45_def CLAIMED_IBID_FORMS_def ibid_eval rx_eval)

end
